theory Spec2Isabelle
  imports Main
begin

section \<open>The expression simplifier of miasm (miasm/expression/simplifications.py)\<close>

subsection \<open>Expression nodes\<close>

text \<open>
  The expression classes live in miasm.expression.expression, which is not part of the
  source file. A Python class is modelled by its name; a class derived from one of the
  expression classes is \<open>Subclass name base\<close>. The simplifier only ever reads
  \<open>expression.__class__\<close> and compares classes by identity, which is equality here.
\<close>

datatype expr_class =
    ExprInt | ExprId | ExprLoc | ExprAssign | ExprCond | ExprMem | ExprOp | ExprSlice
  | ExprCompose | Subclass string expr_class

text \<open>\<open>issubclass c k\<close>: class \<open>c\<close> is \<open>k\<close> or is derived from it.\<close>

fun issubclass :: "expr_class \<Rightarrow> expr_class \<Rightarrow> bool" where
  "issubclass (Subclass n b) k = (Subclass n b = k \<or> issubclass b k)"
| "issubclass c k = (c = k)"

text \<open>
  Modelled from the spec: the Expression Node (class Expr and its subclasses are not in the
  source file). A node is an immutable value identified by its kind, its kind-specific
  payload and its ordered children; \<open>==\<close> is structural equality, which is HOL equality.
\<close>

datatype 'p expr = Expr (cls: expr_class) (payload: 'p) (args: "'p expr list")

subsection \<open>Callbacks, the module's environment and the engine\<close>

text \<open>
  A simplification callback is a Python function object; its identity is its name. The rule
  bodies (simplifications_common, simplifications_cond, simplifications_explicit) are not in
  the source file. Modelled from the spec: the source calls a callback as
  \<open>simp_func(self, expression)\<close>, and the Rule Callback contract of the spec makes it a pure
  function with no observable side effect; so the environment gives, for each callback,
  the function it computes on a node, and a callback neither reads nor changes the engine.
  A callback that calls back into the engine it is given is outside this model.
  \<open>canonize\<close> is \<open>Expr.canonize\<close>, and \<open>log_level\<close> is \<open>log_exprsimp.level\<close>.
\<close>

type_synonym callback = string

record 'p env =
  run_cb :: "callback \<Rightarrow> 'p expr \<Rightarrow> 'p expr"
  canonize :: "'p expr \<Rightarrow> 'p expr"
  log_level :: int

text \<open>
  What the engine does to its collaborators, in order: a call of \<open>canonize\<close>, a call of a
  callback on a node, a call of \<open>log_exprsimp.debug\<close>.
\<close>

datatype 'p event =
    Canonize "'p expr"
  | Call callback "'p expr"
  | Debug callback "'p expr" "'p expr"

text \<open>
  An \<open>ExpressionSimplifier\<close> instance: the fields \<open>expr_simp_cb\<close> (a dict from class to
  list of callbacks) and \<open>simplified_exprs\<close> (a set of nodes). \<open>trace\<close> is not a field of
  the Python object: it is the log of the events above, kept to state which collaborators
  a call invoked.
\<close>

record 'p simplifier =
  expr_simp_cb :: "expr_class \<rightharpoonup> callback list"
  simplified_exprs :: "'p expr set"
  trace :: "'p event list"

text \<open>\<open>__init__\<close>\<close>

definition init :: "'p simplifier" where
  "init = \<lparr>expr_simp_cb = Map.empty, simplified_exprs = {}, trace = []\<rparr>"

subsection \<open>Pass tables\<close>

definition PASS_COMMONS :: "expr_class \<rightharpoonup> callback list" where
  "PASS_COMMONS = map_of
    [(ExprOp,
       [''simp_cst_propagation'', ''simp_cond_op_int'', ''simp_cond_factor'',
        ''simp_add_multiple'', ''simp_cc_conds'', ''simp_subwc_cf'', ''simp_subwc_of'',
        ''simp_sign_subwc_cf'', ''simp_double_zeroext'', ''simp_double_signext'',
        ''simp_zeroext_eq_cst'', ''simp_ext_eq_ext'', ''simp_cmp_int'',
        ''simp_cmp_bijective_op'', ''simp_sign_inf_zeroext'', ''simp_cmp_int_int'',
        ''simp_ext_cst'', ''simp_zeroext_and_cst_eq_cst'', ''simp_test_signext_inf'',
        ''simp_test_zeroext_inf'', ''simp_cond_inf_eq_unsigned_zero'',
        ''simp_compose_and_mask'']),
     (ExprSlice, [''simp_slice'', ''simp_slice_of_ext'', ''simp_slice_of_op_ext'']),
     (ExprCompose, [''simp_compose'']),
     (ExprCond,
       [''simp_cond'', ''simp_cond_zeroext'', ''simp_cond_add'', ''simp_cond_flag'',
        ''simp_cmp_int_arg'', ''simp_cond_eq_zero'', ''simp_x_and_cst_eq_cst'',
        ''simp_cond_logic_ext'', ''simp_cond_sign_bit'', ''simp_cond_eq_1_0'']),
     (ExprMem, [''simp_mem''])]"

definition PASS_HEAVY :: "expr_class \<rightharpoonup> callback list" where
  "PASS_HEAVY = Map.empty"

definition PASS_COND :: "expr_class \<rightharpoonup> callback list" where
  "PASS_COND = map_of
    [(ExprSlice, [''expr_simp_inf_signed'', ''expr_simp_inf_unsigned_inversed'']),
     (ExprOp, [''expr_simp_inverse'']),
     (ExprCond, [''expr_simp_equal''])]"

definition PASS_HIGH_TO_EXPLICIT :: "expr_class \<rightharpoonup> callback list" where
  "PASS_HIGH_TO_EXPLICIT = map_of [(ExprOp, [''simp_flags'', ''simp_ext''])]"

text \<open>
  Modelled from the spec: \<open>fast_unify\<close> (miasm.expression.expression_helper is not in the
  source file) is the "stable unify" of the spec: it drops every item already seen and
  keeps the others in the order of their first occurrence. \<open>result\<close> is the list built so
  far; the items seen are exactly its elements.
\<close>

fun fast_unify_loop :: "'a list \<Rightarrow> 'a list \<Rightarrow> 'a list" where
  "fast_unify_loop result [] = result"
| "fast_unify_loop result (item # seq) =
     (if item \<in> set result then fast_unify_loop result seq
      else fast_unify_loop (result @ [item]) seq)"

definition fast_unify :: "'a list \<Rightarrow> 'a list" where
  "fast_unify seq = fast_unify_loop [] seq"

text \<open>\<open>dict.get(k, [])\<close>\<close>

definition get_list :: "('k \<rightharpoonup> 'v list) \<Rightarrow> 'k \<Rightarrow> 'v list" where
  "get_list d k = (case d k of None \<Rightarrow> [] | Some v \<Rightarrow> v)"

text \<open>
  \<open>enable_passes\<close>: the cache is cleared, then every key \<open>k\<close> of \<open>passes\<close> gets the list
  \<open>fast_unify (expr_simp_cb.get(k, []) + v)\<close>. The keys of a dict are distinct and the
  entry written for \<open>k\<close> reads the entry of \<open>k\<close> only, so the loop over the items does not
  depend on their order.
\<close>

definition enable_passes ::
  "(expr_class \<rightharpoonup> callback list) \<Rightarrow> 'p simplifier \<Rightarrow> 'p simplifier" where
  "enable_passes passes self =
     self\<lparr>simplified_exprs := {},
          expr_simp_cb := (\<lambda>k. case passes k of
                                  None \<Rightarrow> expr_simp_cb self k
                                | Some v \<Rightarrow> Some (fast_unify (get_list (expr_simp_cb self) k @ v)))\<rparr>"

subsection \<open>apply_simp\<close>

text \<open>\<open>logging.DEBUG\<close>\<close>

definition DEBUG :: int where
  "DEBUG = 10"

text \<open>
  The \<open>for\<close> loop of \<open>apply_simp\<close> over the callbacks registered for \<open>c\<close>: the result and the
  events of the loop. \<open>debug_level\<close> is \<open>log_exprsimp.level >= logging.DEBUG\<close>, as the source
  computes it: it holds at every level from \<open>DEBUG\<close> upwards, \<open>WARNING\<close> (the level the module
  sets) included. The event \<open>Debug\<close> is the call of \<open>log_exprsimp.debug\<close>; what the logger
  then prints is its own business.
\<close>

fun apply_simp_loop ::
  "'p env \<Rightarrow> bool \<Rightarrow> expr_class \<Rightarrow> callback list \<Rightarrow> 'p expr \<Rightarrow> 'p expr \<times> 'p event list" where
  "apply_simp_loop E debug_level c [] expression = (expression, [])"
| "apply_simp_loop E debug_level c (simp_func # rest) expression =
     (let before_e = expression;
          after_e = run_cb E simp_func before_e;
          evs = Call simp_func before_e #
                (if debug_level \<and> before_e \<noteq> after_e
                 then [Debug simp_func before_e after_e] else [])
      in if cls after_e \<noteq> c then (after_e, evs)
         else (case apply_simp_loop E debug_level c rest after_e of
                 (r, evs') \<Rightarrow> (r, evs @ evs')))"

definition apply_simp :: "'p env \<Rightarrow> 'p simplifier \<Rightarrow> 'p expr \<Rightarrow> 'p expr \<times> 'p simplifier" where
  "apply_simp E self expression =
     (let c = cls expression;
          debug_level = (log_level E \<ge> DEBUG)
      in case apply_simp_loop E debug_level c (get_list (expr_simp_cb self) c) expression of
           (r, evs) \<Rightarrow> (r, self\<lparr>trace := trace self @ evs\<rparr>))"

subsection \<open>expr_simp, expr_simp_wrapper and the visit of a node\<close>

text \<open>
  The test \<open>lambda e: e not in self.simplified_exprs\<close> handed to \<open>visit\<close>,
  \<open>simplified_exprs.add\<close>, and the call of \<open>canonize\<close>.
\<close>

definition test_visit :: "'p simplifier \<Rightarrow> 'p expr \<Rightarrow> bool" where
  "test_visit self e = (e \<notin> simplified_exprs self)"

definition add_simplified :: "'p expr \<Rightarrow> 'p simplifier \<Rightarrow> 'p simplifier" where
  "add_simplified e self = self\<lparr>simplified_exprs := insert e (simplified_exprs self)\<rparr>"

definition canonize_call :: "'p env \<Rightarrow> 'p expr \<Rightarrow> 'p simplifier \<Rightarrow> 'p expr \<times> 'p simplifier" where
  "canonize_call E e self = (canonize E e, self\<lparr>trace := trace self @ [Canonize e]\<rparr>)"

text \<open>
  The simplification loops for as long as the callbacks keep rewriting, so it runs on fuel:
  \<open>None\<close> is "no result within this fuel". One unit of fuel is one turn of the
  \<open>while True\<close> loop of \<open>expr_simp\<close>.

  \<^item> \<open>expr_simp\<close>: the cache test, then the loop \<open>expr_simp_while\<close>.
  \<^item> \<open>expr_simp_wrapper\<close>: the cache test, then \<open>expression.visit(callback, test)\<close> with
    \<open>callback\<close> defaulting to \<open>expr_simp\<close> (\<open>None\<close>) and the test
    \<open>e not in simplified_exprs\<close>.
  \<^item> Modelled from the spec: \<open>visit\<close> (\<open>Expr.visit\<close> is not in the source file) is the
    bottom-up visit of section 4.4 with its per-node callback: a node that fails the test
    is returned as it is; otherwise its children are visited from left to right, the node
    is rebuilt on the visited children (it is the same node when none changed), and the
    callback is applied to the rebuilt node.
\<close>

type_synonym 'p visitor = "'p expr \<Rightarrow> 'p simplifier \<Rightarrow> ('p expr \<times> 'p simplifier) option"

function
  expr_simp :: "'p env \<Rightarrow> nat \<Rightarrow> 'p expr \<Rightarrow> 'p simplifier \<Rightarrow> ('p expr \<times> 'p simplifier) option"
and
  expr_simp_while :: "'p env \<Rightarrow> nat \<Rightarrow> 'p expr \<Rightarrow> 'p simplifier \<Rightarrow> ('p expr \<times> 'p simplifier) option"
and
  expr_simp_wrapper ::
    "'p env \<Rightarrow> nat \<Rightarrow> 'p visitor option \<Rightarrow> 'p expr \<Rightarrow> 'p simplifier \<Rightarrow> ('p expr \<times> 'p simplifier) option"
and
  visit ::
    "'p env \<Rightarrow> nat \<Rightarrow> 'p visitor option \<Rightarrow> 'p expr \<Rightarrow> 'p simplifier \<Rightarrow> ('p expr \<times> 'p simplifier) option"
and
  visit_args ::
    "'p env \<Rightarrow> nat \<Rightarrow> 'p visitor option \<Rightarrow> 'p expr list \<Rightarrow> 'p simplifier \<Rightarrow> ('p expr list \<times> 'p simplifier) option"
where
  "expr_simp E fuel expression self =
     (if expression \<in> simplified_exprs self then Some (expression, self)
      else expr_simp_while E fuel expression self)"
| "expr_simp_while E 0 expression self = None"
| "expr_simp_while E (Suc fuel) expression self =
     (case canonize_call E expression self of
        (canon, self1) \<Rightarrow>
          (case apply_simp E self1 canon of
             (e_new, self2) \<Rightarrow>
               if e_new = expression then Some (e_new, add_simplified e_new self2)
               else (case expr_simp_wrapper E fuel None e_new self2 of
                       None \<Rightarrow> None
                     | Some (expression', self3) \<Rightarrow>
                         expr_simp_while E fuel expression' (add_simplified expression' self3))))"
| "expr_simp_wrapper E fuel callback expression self =
     (if expression \<in> simplified_exprs self then Some (expression, self)
      else visit E fuel callback expression self)"
| "visit E fuel callback (Expr c p as) self =
     (if \<not> test_visit self (Expr c p as) then Some (Expr c p as, self)
      else (case visit_args E fuel callback as self of
              None \<Rightarrow> None
            | Some (as', self1) \<Rightarrow>
                (let expr_new = (if as' \<noteq> as then Expr c p as' else Expr c p as)
                 in case callback of
                      None \<Rightarrow> expr_simp E fuel expr_new self1
                    | Some f \<Rightarrow> f expr_new self1)))"
| "visit_args E fuel callback [] self = Some ([], self)"
| "visit_args E fuel callback (a # as) self =
     (case visit E fuel callback a self of
        None \<Rightarrow> None
      | Some (a', self1) \<Rightarrow>
          (case visit_args E fuel callback as self1 of
             None \<Rightarrow> None
           | Some (as', self2) \<Rightarrow> Some (a' # as', self2)))"
  by pat_completeness auto

text \<open>
  Termination: the fuel never grows; at equal fuel, \<open>expr_simp_wrapper\<close> calls \<open>visit\<close>,
  \<open>visit\<close> and \<open>visit_args\<close> go down the node and then call \<open>expr_simp\<close>, which calls the
  loop, and a turn of the loop spends fuel.
\<close>

termination
  by (relation "inv_image (less_than <*lex*> less_than <*lex*> less_than) (\<lambda>x. case x of
      Inl (Inl (E, n, e, s)) \<Rightarrow> (n, 1::nat, 0::nat)
    | Inl (Inr (E, n, e, s)) \<Rightarrow> (n, 0, 0)
    | Inr (Inl (E, n, cb, e, s)) \<Rightarrow> (n, 3, 0)
    | Inr (Inr (Inl (E, n, cb, e, s))) \<Rightarrow> (n, 2, size e)
    | Inr (Inr (Inr (E, n, cb, es, s))) \<Rightarrow> (n, 2, size_list size es))") auto

subsection \<open>Notions used to state the properties\<close>

text \<open>
  Stable unification in the words of the spec: duplicates are removed and every item stays
  at the place of its first occurrence.
\<close>

fun stable_unify :: "'a list \<Rightarrow> 'a list" where
  "stable_unify [] = []"
| "stable_unify (x # xs) = x # stable_unify (removeAll x xs)"

text \<open>The callbacks invoked by a sequence of events, in order.\<close>

fun invoked :: "'p event list \<Rightarrow> callback list" where
  "invoked [] = []"
| "invoked (Call f e # evs) = f # invoked evs"
| "invoked (Canonize e # evs) = invoked evs"
| "invoked (Debug f b a # evs) = invoked evs"

text \<open>
  \<open>extends self self'\<close>: \<open>self'\<close> has the pass table of \<open>self\<close>, at least its cache, and
  its events followed by further ones.
\<close>

definition extends :: "'p simplifier \<Rightarrow> 'p simplifier \<Rightarrow> bool" where
  "extends self self' =
     (expr_simp_cb self' = expr_simp_cb self \<and>
      simplified_exprs self \<subseteq> simplified_exprs self' \<and>
      (\<exists>evs. trace self' = trace self @ evs))"

text \<open>
  \<open>stable E self e\<close>: the exit test of the loop of \<open>expr_simp\<close> succeeds on \<open>e\<close>, that is,
  \<open>apply_simp(e.canonize()) == e\<close>. \<open>cache_ok\<close>: every node of the cache is stable.
\<close>

definition stable :: "'p env \<Rightarrow> 'p simplifier \<Rightarrow> 'p expr \<Rightarrow> bool" where
  "stable E self e = (fst (apply_simp E self (canonize E e)) = e)"

definition cache_ok :: "'p env \<Rightarrow> 'p simplifier \<Rightarrow> bool" where
  "cache_ok E self = (\<forall>e \<in> simplified_exprs self. stable E self e)"

text \<open>
  The fields of the Python object (the state without the log of events), and the outcome
  of a run: the node returned and the fields of the engine afterwards.
\<close>

definition engine_fields :: "'p simplifier \<Rightarrow> (expr_class \<rightharpoonup> callback list) \<times> 'p expr set" where
  "engine_fields self = (expr_simp_cb self, simplified_exprs self)"

definition outcome ::
  "('a \<times> 'p simplifier) option \<Rightarrow> ('a \<times> (expr_class \<rightharpoonup> callback list) \<times> 'p expr set) option" where
  "outcome res = (case res of None \<Rightarrow> None | Some (r, self) \<Rightarrow> Some (r, engine_fields self))"

subsection \<open>The engines of the module\<close>

text \<open>
  \<open>expr_simp\<close>, \<open>expr_simp_high_to_explicit\<close> and \<open>expr_simp_explicit\<close>, the three instances the
  module builds when it is imported (\<open>expr_simp_inst\<close>: the name \<open>expr_simp\<close> is the method).
\<close>

definition expr_simp_inst :: "'p simplifier" where
  "expr_simp_inst = enable_passes PASS_COMMONS init"

definition expr_simp_high_to_explicit :: "'p simplifier" where
  "expr_simp_high_to_explicit = enable_passes PASS_HIGH_TO_EXPLICIT init"

definition expr_simp_explicit :: "'p simplifier" where
  "expr_simp_explicit = enable_passes PASS_HIGH_TO_EXPLICIT (enable_passes PASS_COMMONS init)"

subsection \<open>Nodes, callbacks and engines used as examples\<close>

text \<open>
  Nodes with a string as payload: two identifiers, the sums \<open>b + a\<close> and \<open>a + b\<close>, two
  integers and their sum, a node of a class derived from \<open>ExprOp\<close>.
\<close>

definition id_a :: "string expr" where
  "id_a = Expr ExprId ''a'' []"

definition id_b :: "string expr" where
  "id_b = Expr ExprId ''b'' []"

definition add_ba :: "string expr" where
  "add_ba = Expr ExprOp ''+'' [id_b, id_a]"

definition add_ab :: "string expr" where
  "add_ab = Expr ExprOp ''+'' [id_a, id_b]"

definition int_5 :: "string expr" where
  "int_5 = Expr ExprInt ''5'' []"

definition add_2_3 :: "string expr" where
  "add_2_3 = Expr ExprOp ''+'' [Expr ExprInt ''2'' [], Expr ExprInt ''3'' []]"

definition my_add_ab :: "string expr" where
  "my_add_ab = Expr (Subclass ''MyOp'' ExprOp) ''+'' [id_a, id_b]"

definition wrapped :: "string expr" where
  "wrapped = Expr ExprOp ''wrap'' []"

definition neg_a :: "string expr" where
  "neg_a = Expr ExprOp ''-'' [id_a]"

definition neg_b :: "string expr" where
  "neg_b = Expr ExprOp ''-'' [id_b]"

text \<open>
  An environment without callbacks whose \<open>canonize\<close> orders the operands of \<open>b + a\<close>.
\<close>

definition env_sort :: "string env" where
  "env_sort = \<lparr>run_cb = (\<lambda>f e. e),
               canonize = (\<lambda>e. if e = add_ba then add_ab else e),
               log_level = 30\<rparr>"

text \<open>
  Toy callbacks: \<open>unwrap\<close> rewrites \<open>wrapped\<close> to \<open>- a\<close>, \<open>rename\<close> rewrites \<open>a\<close> to \<open>b\<close>,
  \<open>fold\<close> rewrites \<open>2 + 3\<close> to \<open>5\<close>, \<open>specialise\<close> turns an \<open>ExprOp\<close> into a node of the
  derived class \<open>MyOp\<close>, and \<open>wrong\<close> returns a node nobody wants. Each returns every other
  node as it is.
\<close>

definition toy_cb :: "callback \<Rightarrow> string expr \<Rightarrow> string expr" where
  "toy_cb f e =
     (if f = ''unwrap'' \<and> e = wrapped then neg_a
      else if f = ''rename'' \<and> e = id_a then id_b
      else if f = ''fold'' \<and> e = add_2_3 then int_5
      else if f = ''specialise'' \<and> cls e = ExprOp
        then Expr (Subclass ''MyOp'' ExprOp) (payload e) (args e)
      else if f = ''wrong'' then Expr ExprId ''wrong'' []
      else e)"

definition env_toy :: "string env" where
  "env_toy = \<lparr>run_cb = toy_cb, canonize = (\<lambda>e. e), log_level = 30\<rparr>"

definition toy_passes :: "expr_class \<rightharpoonup> callback list" where
  "toy_passes = map_of [(ExprOp, [''unwrap'']), (ExprId, [''rename''])]"

definition toy_engine :: "string simplifier" where
  "toy_engine = enable_passes toy_passes init"

definition fold_engine :: "string simplifier" where
  "fold_engine = enable_passes (map_of [(ExprOp, [''unwrap'', ''fold'', ''wrong''])]) init"

definition keep_engine :: "string simplifier" where
  "keep_engine = enable_passes (map_of [(ExprOp, [''unwrap'', ''rename''])]) init"

definition spec_engine :: "string simplifier" where
  "spec_engine = enable_passes (map_of [(ExprOp, [''specialise'', ''wrong''])]) init"

text \<open>
  The engines after \<open>expr_simp\<close> of \<open>b + a\<close> on the engine without passes, and after
  \<open>expr_simp\<close> of \<open>wrapped\<close> on the toy engine.
\<close>

definition sort_final :: "string simplifier" where
  "sort_final = init
     \<lparr>simplified_exprs := {id_a, id_b, add_ab},
      trace := [Canonize add_ba, Canonize id_a, Canonize id_b, Canonize add_ab,
                Canonize add_ab]\<rparr>"

definition toy_final :: "string simplifier" where
  "toy_final = toy_engine
     \<lparr>simplified_exprs := {id_b, neg_b},
      trace := [Canonize wrapped, Call ''unwrap'' wrapped, Debug ''unwrap'' wrapped neg_a,
                Canonize id_a, Call ''rename'' id_a, Debug ''rename'' id_a id_b,
                Canonize id_b, Call ''rename'' id_b,
                Canonize id_b, Call ''rename'' id_b,
                Canonize neg_b, Call ''unwrap'' neg_b,
                Canonize neg_b, Call ''unwrap'' neg_b]\<rparr>"

subsection \<open>enable_passes on a store of list and dict objects\<close>

text \<open>
  Whether \<open>enable_passes\<close> can modify the table it is given depends on which Python objects
  it writes, so here the lists and the dicts are objects of a store. A reference is the
  index of the object; a dict is the list of its items, with distinct keys, in the order
  of iteration, and its values are references of list objects. A new list (the result of
  \<open>+\<close>, the result of \<open>fast_unify\<close>) is a new object at the end of the store.
\<close>

record store =
  list_objs :: "callback list list"
  dict_objs :: "(expr_class \<times> nat) list list"

text \<open>
  The engine as an object: the reference of its dict \<open>expr_simp_cb\<close>, and its set
  \<open>simplified_exprs\<close>.
\<close>

record 'p simplifier_obj =
  expr_simp_cb_ref :: nat
  simplified_exprs_obj :: "'p expr set"

definition new_list :: "callback list \<Rightarrow> store \<Rightarrow> nat \<times> store" where
  "new_list l h = (length (list_objs h), h\<lparr>list_objs := list_objs h @ [l]\<rparr>)"

text \<open>\<open>d[k] = v\<close> on the items of a dict: the key keeps its place, a new key goes last.\<close>

fun dict_set :: "'k \<Rightarrow> 'v \<Rightarrow> ('k \<times> 'v) list \<Rightarrow> ('k \<times> 'v) list" where
  "dict_set k v [] = [(k, v)]"
| "dict_set k v ((k', v') # d) = (if k' = k then (k, v) # d else (k', v') # dict_set k v d)"

text \<open>
  One turn of the loop of \<open>enable_passes\<close> for the item \<open>(k, v)\<close> of \<open>passes\<close>:
  \<open>self.expr_simp_cb[k] = fast_unify(self.expr_simp_cb.get(k, []) + v)\<close>.
\<close>

definition merge_item :: "nat \<Rightarrow> expr_class \<times> nat \<Rightarrow> store \<Rightarrow> store" where
  "merge_item cb item h =
     (case item of (k, v) \<Rightarrow>
        (let d = dict_objs h ! cb;
             old = (case map_of d k of None \<Rightarrow> [] | Some r \<Rightarrow> list_objs h ! r);
             (r1, h1) = new_list (old @ list_objs h ! v) h;
             (r2, h2) = new_list (fast_unify (list_objs h1 ! r1)) h1
         in h2\<lparr>dict_objs := (dict_objs h2)[cb := dict_set k r2 (dict_objs h2 ! cb)]\<rparr>))"

definition enable_passes_store ::
  "nat \<Rightarrow> 'p simplifier_obj \<Rightarrow> store \<Rightarrow> 'p simplifier_obj \<times> store" where
  "enable_passes_store passes self h =
     (self\<lparr>simplified_exprs_obj := {}\<rparr>,
      fold (merge_item (expr_simp_cb_ref self)) (dict_objs h ! passes) h)"

text \<open>
  The table a dict of the store stands for, and the well-formed stores: every reference
  that is used is the reference of an object.
\<close>

definition table_of :: "store \<Rightarrow> nat \<Rightarrow> (expr_class \<rightharpoonup> callback list)" where
  "table_of h d = map_of (map (\<lambda>(k, r). (k, list_objs h ! r)) (dict_objs h ! d))"

definition valid_dict :: "store \<Rightarrow> nat \<Rightarrow> bool" where
  "valid_dict h d =
     (d < length (dict_objs h) \<and> distinct (map fst (dict_objs h ! d)) \<and>
      list_all (\<lambda>(k, r). r < length (list_objs h)) (dict_objs h ! d))"

text \<open>
  A store with the dict \<open>PASS_HIGH_TO_EXPLICIT\<close> (reference 0, its list at reference 0) and
  the dict of an engine that has enabled one callback for \<open>ExprOp\<close> (reference 1).
\<close>

definition store_ex :: store where
  "store_ex = \<lparr>list_objs = [[''simp_flags'', ''simp_ext''], [''simp_flags'']],
               dict_objs = [[(ExprOp, 0)], [(ExprOp, 1)]]\<rparr>"

definition engine_ex :: "string simplifier_obj" where
  "engine_ex = \<lparr>expr_simp_cb_ref = 1, simplified_exprs_obj = {id_a}\<rparr>"

text \<open>
  A table to merge into \<open>keep_engine\<close>: it repeats callbacks, of the engine and of its own,
  and it has a kind the engine has no list for.
\<close>

definition more_passes :: "expr_class \<rightharpoonup> callback list" where
  "more_passes = map_of
     [(ExprOp, [''rename'', ''wrong'', ''unwrap'', ''wrong'']),
      (ExprId, [''rename'', ''rename''])]"

section \<open>Properties\<close>

subsection \<open>fast_unify\<close>

lemma set_fast_unify_loop: "set (fast_unify_loop r xs) = set r \<union> set xs"
  by (induction xs arbitrary: r) auto

lemma distinct_fast_unify_loop: "distinct r \<Longrightarrow> distinct (fast_unify_loop r xs)"
  by (induction xs arbitrary: r) auto

lemma fast_unify_loop_append:
  "fast_unify_loop r (xs @ ys) = fast_unify_loop (fast_unify_loop r xs) ys"
  by (induction xs arbitrary: r) auto

lemma fast_unify_loop_seen: "set ys \<subseteq> set r \<Longrightarrow> fast_unify_loop r ys = r"
  by (induction ys arbitrary: r) auto

lemma fast_unify_loop_fresh:
  "distinct xs \<Longrightarrow> set xs \<inter> set r = {} \<Longrightarrow> fast_unify_loop r xs = r @ xs"
  by (induction xs arbitrary: r) auto

lemma fast_unify_loop_stable:
  "fast_unify_loop r xs = r @ stable_unify (filter (\<lambda>x. x \<notin> set r) xs)"
proof (induction xs arbitrary: r)
  case Nil
  show ?case by simp
next
  case (Cons x xs)
  show ?case
  proof (cases "x \<in> set r")
    case True
    then show ?thesis using Cons.IH [of r] by simp
  next
    case False
    have eq: "removeAll x (filter (\<lambda>y. y \<notin> set r) xs) = filter (\<lambda>y. y \<notin> set (r @ [x])) xs"
      by (induction xs) auto
    show ?thesis using False Cons.IH [of "r @ [x]"] by (simp add: eq)
  qed
qed

lemma fast_unify_stable: "fast_unify xs = stable_unify xs"
  using fast_unify_loop_stable [of "[]" xs] by (simp add: fast_unify_def)

lemma distinct_fast_unify: "distinct (fast_unify xs)"
  by (simp add: fast_unify_def distinct_fast_unify_loop)

lemma set_fast_unify: "set (fast_unify xs) = set xs"
  by (simp add: fast_unify_def set_fast_unify_loop)

lemma fast_unify_again: "fast_unify (fast_unify (l @ v) @ v) = fast_unify (l @ v)"
proof -
  let ?X = "fast_unify (l @ v)"
  have "fast_unify (?X @ v) = fast_unify_loop (fast_unify_loop [] ?X) v"
    by (simp only: fast_unify_def fast_unify_loop_append)
  also have "fast_unify_loop [] ?X = ?X"
    using fast_unify_loop_fresh [of ?X "[]"] by (simp add: distinct_fast_unify)
  also have "fast_unify_loop ?X v = ?X"
    by (rule fast_unify_loop_seen) (simp add: set_fast_unify)
  finally show ?thesis .
qed

lemma enable_passes_twice:
  "enable_passes passes (enable_passes passes self) = enable_passes passes self"
  by (auto simp: enable_passes_def get_list_def fast_unify_again fun_eq_iff split: option.splits)

subsection \<open>What a run keeps\<close>

lemma extends_refl: "extends s s"
  by (simp add: extends_def)

lemma extends_trans: "extends s t \<Longrightarrow> extends t u \<Longrightarrow> extends s u"
  by (auto simp: extends_def)

lemma extends_add: "extends s (add_simplified e s)"
  by (auto simp: extends_def add_simplified_def)

lemma apply_simp_snd: "\<exists>evs. snd (apply_simp E s e) = s\<lparr>trace := trace s @ evs\<rparr>"
  by (auto simp: apply_simp_def Let_def split: prod.splits)

lemma extends_apply_simp: "apply_simp E s e = (r, s') \<Longrightarrow> extends s s'"
  using apply_simp_snd [of E s e] by (auto simp: extends_def)

lemma extends_canonize_call: "canonize_call E e s = (r, s') \<Longrightarrow> extends s s'"
  by (auto simp: extends_def canonize_call_def)

lemma run_extends_aux:
  "\<forall>r s'. expr_simp E n e s = Some (r, s') \<longrightarrow> extends s s'"
  "\<forall>r s'. expr_simp_while E n e s = Some (r, s') \<longrightarrow> extends s s'"
  "cb = None \<longrightarrow> (\<forall>r s'. expr_simp_wrapper E n cb e s = Some (r, s') \<longrightarrow> extends s s')"
  "cb = None \<longrightarrow> (\<forall>r s'. visit E n cb e s = Some (r, s') \<longrightarrow> extends s s')"
  "cb = None \<longrightarrow> (\<forall>rs s'. visit_args E n cb es s = Some (rs, s') \<longrightarrow> extends s s')"
proof (induction E n e s and E n e s and E n cb e s and E n cb e s and E n cb es s
       rule: expr_simp_expr_simp_while_expr_simp_wrapper_visit_visit_args.induct)
  case (1 E fuel expression self)
  then show ?case by (auto simp: extends_refl)
next
  case (2 E expression self)
  then show ?case by simp
next
  case (3 E fuel expression self)
  show ?case
  proof (intro allI impI)
    fix r s'
    assume run: "expr_simp_while E (Suc fuel) expression self = Some (r, s')"
    obtain canon self1 where c: "canonize_call E expression self = (canon, self1)"
      by (cases "canonize_call E expression self")
    obtain e_new self2 where a: "apply_simp E self1 canon = (e_new, self2)"
      by (cases "apply_simp E self1 canon")
    have e12: "extends self self2"
      using extends_canonize_call [OF c] extends_apply_simp [OF a] by (rule extends_trans)
    show "extends self s'"
    proof (cases "e_new = expression")
      case True
      then have "s' = add_simplified e_new self2" using run c a by auto
      then show ?thesis using e12 extends_add extends_trans by blast
    next
      case False
      then obtain e' self3 where w: "expr_simp_wrapper E fuel None e_new self2 = Some (e', self3)"
        and l: "expr_simp_while E fuel e' (add_simplified e' self3) = Some (r, s')"
        using run c a by (auto split: option.splits)
      have "extends self2 self3"
        using "3.IH"(1) [OF c [symmetric] a [symmetric] False] w by blast
      moreover have "extends (add_simplified e' self3) s'"
        using "3.IH"(2) [OF c [symmetric] a [symmetric] False w refl] l by blast
      ultimately show ?thesis using e12 extends_add extends_trans by blast
    qed
  qed
next
  case (4 E fuel callback expression self)
  then show ?case by (auto simp: extends_refl)
next
  case (5 E fuel callback c p as self)
  show ?case
  proof (intro allI impI)
    fix r s'
    assume cb: "callback = None" and run: "visit E fuel callback (Expr c p as) self = Some (r, s')"
    show "extends self s'"
    proof (cases "test_visit self (Expr c p as)")
      case False
      then show ?thesis using run by (simp add: extends_refl)
    next
      case True
      then obtain as' self1 where v: "visit_args E fuel callback as self = Some (as', self1)"
        and x: "expr_simp E fuel (if as' \<noteq> as then Expr c p as' else Expr c p as) self1 = Some (r, s')"
        using run cb by (auto split: option.splits simp: Let_def)
      have "extends self self1" using "5.IH"(1) True cb v by blast
      moreover have "extends self1 s'" using "5.IH"(2) [OF _ v refl refl cb] True x by blast
      ultimately show ?thesis by (rule extends_trans)
    qed
  qed
next
  case (6 E fuel callback self)
  then show ?case by (simp add: extends_refl)
next
  case (7 E fuel callback a as self)
  show ?case
  proof (intro allI impI)
    fix rs s'
    assume cb: "callback = None" and run: "visit_args E fuel callback (a # as) self = Some (rs, s')"
    then obtain a' self1 as' where v: "visit E fuel callback a self = Some (a', self1)"
      and w: "visit_args E fuel callback as self1 = Some (as', s')"
      by (auto split: option.splits)
    have "extends self self1" using "7.IH"(1) cb v by blast
    moreover have "extends self1 s'" using "7.IH"(2) [OF v refl] cb w by blast
    ultimately show "extends self s'" by (rule extends_trans)
  qed
qed

lemma run_extends:
  "expr_simp E n e s = Some (r, s') \<Longrightarrow> extends s s'"
  "expr_simp_while E n e s = Some (r, s') \<Longrightarrow> extends s s'"
  "expr_simp_wrapper E n None e s = Some (r, s') \<Longrightarrow> extends s s'"
  "visit E n None e s = Some (r, s') \<Longrightarrow> extends s s'"
  "visit_args E n None es s = Some (rs, s') \<Longrightarrow> extends s s'"
  using run_extends_aux(1) [of E n e s] run_extends_aux(2) [of E n e s]
    run_extends_aux(3) [of None E n e s] run_extends_aux(4) [of None E n e s]
    run_extends_aux(5) [of None E n es s]
  by blast+

subsection \<open>apply_simp\<close>

lemma invoked_append: "invoked (xs @ ys) = invoked xs @ invoked ys"
  by (induction xs rule: invoked.induct) auto

lemma apply_simp_loop_fst_Cons:
  "fst (apply_simp_loop E d c (r # rs) e) =
     (if cls (run_cb E r e) \<noteq> c then run_cb E r e
      else fst (apply_simp_loop E d c rs (run_cb E r e)))"
  by (simp add: Let_def split: prod.splits)

lemma apply_simp_loop_invoked_Cons:
  "invoked (snd (apply_simp_loop E d c (r # rs) e)) =
     r # (if cls (run_cb E r e) \<noteq> c then []
          else invoked (snd (apply_simp_loop E d c rs (run_cb E r e))))"
  by (simp add: Let_def invoked_append split: prod.splits)

lemma apply_simp_loop_prefix:
  "\<forall>n<length rs1. cls (fold (run_cb E) (take (Suc n) rs1) e) = c \<Longrightarrow>
   fst (apply_simp_loop E d c (rs1 @ rs2) e) = fst (apply_simp_loop E d c rs2 (fold (run_cb E) rs1 e)) \<and>
   invoked (snd (apply_simp_loop E d c (rs1 @ rs2) e))
     = rs1 @ invoked (snd (apply_simp_loop E d c rs2 (fold (run_cb E) rs1 e)))"
proof (induction rs1 arbitrary: e)
  case Nil
  show ?case by simp
next
  case (Cons r rs1)
  have first: "cls (run_cb E r e) = c"
    using Cons.prems by (elim allE [of _ 0]) simp
  have rest: "\<forall>n<length rs1. cls (fold (run_cb E) (take (Suc n) rs1) (run_cb E r e)) = c"
  proof (intro allI impI)
    fix n assume "n < length rs1"
    then have "Suc n < length (r # rs1)" by simp
    then have "cls (fold (run_cb E) (take (Suc (Suc n)) (r # rs1)) e) = c"
      using Cons.prems by blast
    then show "cls (fold (run_cb E) (take (Suc n) rs1) (run_cb E r e)) = c" by simp
  qed
  show ?case
    using Cons.IH [OF rest] first
    by (simp only: append_Cons apply_simp_loop_fst_Cons apply_simp_loop_invoked_Cons
          fold_simps comp_apply) simp
qed

lemma apply_simp_fst:
  "fst (apply_simp E s e) =
     fst (apply_simp_loop E (DEBUG \<le> log_level E) (cls e) (get_list (expr_simp_cb s) (cls e)) e)"
  by (simp add: apply_simp_def Let_def split: prod.splits)

lemma apply_simp_trace:
  "trace (snd (apply_simp E s e)) = trace s @
     snd (apply_simp_loop E (DEBUG \<le> log_level E) (cls e) (get_list (expr_simp_cb s) (cls e)) e)"
  by (simp add: apply_simp_def Let_def split: prod.splits)

lemma apply_simp_fst_table:
  "expr_simp_cb s = expr_simp_cb t \<Longrightarrow> fst (apply_simp E s e) = fst (apply_simp E t e)"
  by (simp add: apply_simp_def Let_def split: prod.splits)

lemma apply_simp_loop_level:
  "fst (apply_simp_loop (E\<lparr>log_level := l\<rparr>) d' c rs e) = fst (apply_simp_loop E d c rs e)"
proof (induction rs arbitrary: e)
  case Nil
  show ?case by simp
next
  case (Cons r rs)
  show ?case
    by (simp only: apply_simp_loop_fst_Cons Cons.IH) simp
qed

lemma apply_simp_level:
  "expr_simp_cb t = expr_simp_cb s \<Longrightarrow>
   fst (apply_simp (E\<lparr>log_level := l\<rparr>) t e) = fst (apply_simp E s e)"
  using apply_simp_loop_level [where E = E and l = l and d' = "DEBUG \<le> l" and c = "cls e"
          and rs = "get_list (expr_simp_cb s) (cls e)" and e = e and d = "DEBUG \<le> log_level E"]
  by (simp add: apply_simp_fst)

lemma apply_simp_fields: "engine_fields (snd (apply_simp E s e)) = engine_fields s"
  using apply_simp_snd [of E s e] by (auto simp: engine_fields_def)

lemma stable_table: "expr_simp_cb s = expr_simp_cb t \<Longrightarrow> stable E s e = stable E t e"
  by (simp add: stable_def apply_simp_fst_table [of s t])

lemma stable_extends: "extends s t \<Longrightarrow> stable E t e = stable E s e"
  by (rule stable_table) (simp add: extends_def)

text \<open>The node returned by the loop is in the cache.\<close>

lemma expr_simp_while_recorded:
  "expr_simp_while E n x s = Some (r, s') \<Longrightarrow> r \<in> simplified_exprs s'"
proof (induction n arbitrary: x s)
  case 0
  then show ?case by simp
next
  case (Suc n)
  then show ?case
    by (auto simp: add_simplified_def split: prod.splits if_splits option.splits)
qed

lemma expr_simp_recorded:
  "expr_simp E n x s = Some (r, s') \<Longrightarrow> r \<in> simplified_exprs s'"
  using expr_simp_while_recorded [of E n x s r s'] by (auto split: if_splits)

subsection \<open>The cache holds stable nodes only\<close>

lemma canonize_call_fields:
  "canonize_call E e s = (canon, s1) \<Longrightarrow>
   canon = canonize E e \<and> expr_simp_cb s1 = expr_simp_cb s \<and> simplified_exprs s1 = simplified_exprs s"
  by (auto simp: canonize_call_def)

lemma apply_simp_keeps:
  "apply_simp E s e = (r, s') \<Longrightarrow>
   expr_simp_cb s' = expr_simp_cb s \<and> simplified_exprs s' = simplified_exprs s"
  using apply_simp_snd [of E s e] by auto

lemma cache_ok_cong:
  "expr_simp_cb t = expr_simp_cb s \<Longrightarrow> simplified_exprs t = simplified_exprs s \<Longrightarrow>
   cache_ok E t = cache_ok E s"
  by (simp add: cache_ok_def stable_table [of t s])

lemma cache_ok_add:
  "cache_ok E s \<Longrightarrow> stable E s e \<Longrightarrow> cache_ok E (add_simplified e s)"
  by (auto simp: cache_ok_def add_simplified_def stable_def
        apply_simp_fst_table [of "s\<lparr>simplified_exprs := insert e (simplified_exprs s)\<rparr>" s])

lemma add_simplified_member: "e \<in> simplified_exprs s \<Longrightarrow> add_simplified e s = s"
  by (simp add: add_simplified_def insert_absorb)

lemma run_cache_ok_aux:
  "\<forall>r s'. cache_ok E s \<longrightarrow> expr_simp E n e s = Some (r, s') \<longrightarrow>
      cache_ok E s' \<and> r \<in> simplified_exprs s'"
  "\<forall>r s'. cache_ok E s \<longrightarrow> expr_simp_while E n e s = Some (r, s') \<longrightarrow>
      cache_ok E s' \<and> r \<in> simplified_exprs s'"
  "cb = None \<longrightarrow> (\<forall>r s'. cache_ok E s \<longrightarrow> expr_simp_wrapper E n cb e s = Some (r, s') \<longrightarrow>
      cache_ok E s' \<and> r \<in> simplified_exprs s')"
  "cb = None \<longrightarrow> (\<forall>r s'. cache_ok E s \<longrightarrow> visit E n cb e s = Some (r, s') \<longrightarrow>
      cache_ok E s' \<and> r \<in> simplified_exprs s')"
  "cb = None \<longrightarrow> (\<forall>rs s'. cache_ok E s \<longrightarrow> visit_args E n cb es s = Some (rs, s') \<longrightarrow>
      cache_ok E s')"
proof (induction E n e s and E n e s and E n cb e s and E n cb e s and E n cb es s
       rule: expr_simp_expr_simp_while_expr_simp_wrapper_visit_visit_args.induct)
  case (1 E fuel expression self)
  show ?case
  proof (intro allI impI)
    fix r s'
    assume ok: "cache_ok E self" and run: "expr_simp E fuel expression self = Some (r, s')"
    show "cache_ok E s' \<and> r \<in> simplified_exprs s'"
    proof (cases "expression \<in> simplified_exprs self")
      case True
      then have "r = expression" "s' = self" using run by simp_all
      then show ?thesis using ok True by simp
    next
      case False
      then have "expr_simp_while E fuel expression self = Some (r, s')" using run by simp
      then show ?thesis using "1.IH" [OF False] ok by blast
    qed
  qed
next
  case (2 E expression self)
  then show ?case by simp
next
  case (3 E fuel expression self)
  show ?case
  proof (intro allI impI)
    fix r s'
    assume ok: "cache_ok E self"
      and run: "expr_simp_while E (Suc fuel) expression self = Some (r, s')"
    obtain canon self1 where c: "canonize_call E expression self = (canon, self1)"
      by (cases "canonize_call E expression self")
    obtain e_new self2 where a: "apply_simp E self1 canon = (e_new, self2)"
      by (cases "apply_simp E self1 canon")
    note k1 = canonize_call_fields [OF c] and k2 = apply_simp_keeps [OF a]
    have ok2: "cache_ok E self2"
      using ok cache_ok_cong [of self2 self E] k1 k2 by simp
    show "cache_ok E s' \<and> r \<in> simplified_exprs s'"
    proof (cases "e_new = expression")
      case True
      then have res: "r = expression" "s' = add_simplified expression self2"
        using run c a by auto
      have "fst (apply_simp E self2 (canonize E expression)) = fst (apply_simp E self1 canon)"
        using k1 k2 by (simp add: apply_simp_fst_table [of self2 self1])
      then have "stable E self2 expression"
        using a True by (simp add: stable_def)
      then have "cache_ok E (add_simplified expression self2)"
        using ok2 by (rule cache_ok_add [rotated])
      moreover have "expression \<in> simplified_exprs (add_simplified expression self2)"
        by (simp add: add_simplified_def)
      ultimately show ?thesis using res by simp
    next
      case False
      then obtain e' self3 where w: "expr_simp_wrapper E fuel None e_new self2 = Some (e', self3)"
        and l: "expr_simp_while E fuel e' (add_simplified e' self3) = Some (r, s')"
        using run c a by (auto split: option.splits)
      have "cache_ok E self3 \<and> e' \<in> simplified_exprs self3"
        using "3.IH"(1) [OF c [symmetric] a [symmetric] False] w ok2 by blast
      then have "cache_ok E (add_simplified e' self3)"
        by (simp add: add_simplified_member)
      then show ?thesis
        using "3.IH"(2) [OF c [symmetric] a [symmetric] False w refl] l by blast
    qed
  qed
next
  case (4 E fuel callback expression self)
  show ?case
  proof (intro allI impI)
    fix r s'
    assume cb: "callback = None" and ok: "cache_ok E self"
      and run: "expr_simp_wrapper E fuel callback expression self = Some (r, s')"
    show "cache_ok E s' \<and> r \<in> simplified_exprs s'"
    proof (cases "expression \<in> simplified_exprs self")
      case True
      then have "r = expression" "s' = self" using run by simp_all
      then show ?thesis using ok True by simp
    next
      case False
      then have "visit E fuel callback expression self = Some (r, s')" using run by simp
      then show ?thesis using "4.IH" [OF False] ok cb by blast
    qed
  qed
next
  case (5 E fuel callback c p as self)
  show ?case
  proof (intro allI impI)
    fix r s'
    assume cb: "callback = None" and ok: "cache_ok E self"
      and run: "visit E fuel callback (Expr c p as) self = Some (r, s')"
    show "cache_ok E s' \<and> r \<in> simplified_exprs s'"
    proof (cases "test_visit self (Expr c p as)")
      case False
      then have "r = Expr c p as" "s' = self" using run by simp_all
      then show ?thesis using ok False by (simp add: test_visit_def)
    next
      case True
      then obtain as' self1 where v: "visit_args E fuel callback as self = Some (as', self1)"
        and x: "expr_simp E fuel (if as' \<noteq> as then Expr c p as' else Expr c p as) self1 = Some (r, s')"
        using run cb by (auto split: option.splits simp: Let_def)
      have "cache_ok E self1" using "5.IH"(1) True cb v ok by blast
      then show ?thesis using "5.IH"(2) [OF _ v refl refl cb] True x by blast
    qed
  qed
next
  case (6 E fuel callback self)
  then show ?case by simp
next
  case (7 E fuel callback a as self)
  show ?case
  proof (intro allI impI)
    fix rs s'
    assume cb: "callback = None" and ok: "cache_ok E self"
      and run: "visit_args E fuel callback (a # as) self = Some (rs, s')"
    then obtain a' self1 as' where v: "visit E fuel callback a self = Some (a', self1)"
      and w: "visit_args E fuel callback as self1 = Some (as', s')"
      by (auto split: option.splits)
    have "cache_ok E self1" using "7.IH"(1) cb v ok by blast
    then show "cache_ok E s'" using "7.IH"(2) [OF v refl] cb w by blast
  qed
qed

lemma expr_simp_cache_ok:
  "cache_ok E s \<Longrightarrow> expr_simp E n e s = Some (r, s') \<Longrightarrow> cache_ok E s' \<and> r \<in> simplified_exprs s'"
  using run_cache_ok_aux(1) [of E s n e] by blast

text \<open>
  The cache of a new engine and the cache after \<open>enable_passes\<close> are empty, so they hold
  stable nodes only; the runs keep it so.
\<close>

lemma cache_ok_init: "cache_ok E init"
  by (simp add: cache_ok_def init_def)

lemma cache_ok_enable_passes: "cache_ok E (enable_passes passes self)"
  by (simp add: cache_ok_def enable_passes_def)

lemma expr_simp_wrapper_cache_ok:
  "cache_ok E s \<Longrightarrow> expr_simp_wrapper E n None e s = Some (r, s') \<Longrightarrow>
   cache_ok E s' \<and> r \<in> simplified_exprs s'"
  using run_cache_ok_aux(3) [of None E s n e] by blast

subsection \<open>The log level and the log of events do not steer a run\<close>

lemma outcome_None: "outcome x = None \<longleftrightarrow> x = None"
  by (simp add: outcome_def split: option.splits prod.splits)

lemma outcome_of_None: "outcome None = None"
  by (simp add: outcome_def)

lemma outcome_Some: "outcome (Some (r, s)) = Some (r, engine_fields s)"
  by (simp add: outcome_def)

lemma outcome_eq_Some:
  "outcome x = outcome (Some (r, s)) \<Longrightarrow> \<exists>t. x = Some (r, t) \<and> engine_fields t = engine_fields s"
  by (cases x) (auto simp: outcome_def)

lemma fields_eq:
  "engine_fields t = engine_fields s \<longleftrightarrow>
     expr_simp_cb t = expr_simp_cb s \<and> simplified_exprs t = simplified_exprs s"
  by (simp add: engine_fields_def)

lemma fields_add_simplified:
  "engine_fields t = engine_fields s \<Longrightarrow> engine_fields (add_simplified e t) = engine_fields (add_simplified e s)"
  by (simp add: engine_fields_def add_simplified_def)

lemma level_step:
  assumes f: "engine_fields t = engine_fields s"
    and c: "canonize_call E x s = (canon, s1)" and a: "apply_simp E s1 canon = (e_new, s2)"
    and c': "canonize_call (E\<lparr>log_level := l\<rparr>) x t = (canon', t1)"
    and a': "apply_simp (E\<lparr>log_level := l\<rparr>) t1 canon' = (e_new', t2)"
  shows "e_new' = e_new \<and> engine_fields t2 = engine_fields s2"
proof -
  have k: "canon = canonize E x" "expr_simp_cb s1 = expr_simp_cb s"
      "simplified_exprs s1 = simplified_exprs s"
    using canonize_call_fields [OF c] by simp_all
  have k': "canon' = canonize E x" "expr_simp_cb t1 = expr_simp_cb t"
      "simplified_exprs t1 = simplified_exprs t"
    using canonize_call_fields [OF c'] by simp_all
  have "fst (apply_simp (E\<lparr>log_level := l\<rparr>) t1 canon') = fst (apply_simp E s1 canon)"
    using k k' f by (simp add: apply_simp_level [of t1 s1] fields_eq)
  then have "e_new' = e_new" using a a' by simp
  moreover have "engine_fields t2 = engine_fields s2"
    using apply_simp_keeps [OF a] apply_simp_keeps [OF a'] k k' f by (simp add: fields_eq)
  ultimately show ?thesis by simp
qed

lemma run_level_aux:
  "\<forall>t. engine_fields t = engine_fields s \<longrightarrow>
     outcome (expr_simp (E\<lparr>log_level := l\<rparr>) n e t) = outcome (expr_simp E n e s)"
  "\<forall>t. engine_fields t = engine_fields s \<longrightarrow>
     outcome (expr_simp_while (E\<lparr>log_level := l\<rparr>) n e t) = outcome (expr_simp_while E n e s)"
  "cb = None \<longrightarrow> (\<forall>t. engine_fields t = engine_fields s \<longrightarrow>
     outcome (expr_simp_wrapper (E\<lparr>log_level := l\<rparr>) n cb e t) = outcome (expr_simp_wrapper E n cb e s))"
  "cb = None \<longrightarrow> (\<forall>t. engine_fields t = engine_fields s \<longrightarrow>
     outcome (visit (E\<lparr>log_level := l\<rparr>) n cb e t) = outcome (visit E n cb e s))"
  "cb = None \<longrightarrow> (\<forall>t. engine_fields t = engine_fields s \<longrightarrow>
     outcome (visit_args (E\<lparr>log_level := l\<rparr>) n cb es t) = outcome (visit_args E n cb es s))"
  supply expr_simp.simps [simp del] expr_simp_wrapper.simps [simp del]
proof (induction E n e s and E n e s and E n cb e s and E n cb e s and E n cb es s
       rule: expr_simp_expr_simp_while_expr_simp_wrapper_visit_visit_args.induct)
  case (1 E fuel expression self)
  show ?case
  proof (intro allI impI)
    fix t :: "'a simplifier"
    assume f: "engine_fields t = engine_fields self"
    show "outcome (expr_simp (E\<lparr>log_level := l\<rparr>) fuel expression t)
        = outcome (expr_simp E fuel expression self)"
    proof (cases "expression \<in> simplified_exprs self")
      case True
      then show ?thesis using f by (simp add: fields_eq outcome_Some expr_simp.simps)
    next
      case False
      then have "expression \<notin> simplified_exprs t" using f by (simp add: fields_eq)
      then show ?thesis using "1.IH" [OF False] f False by (simp add: expr_simp.simps)
    qed
  qed
next
  case (2 E expression self)
  show ?case by simp
next
  case (3 E fuel expression self)
  show ?case
  proof (intro allI impI)
    fix t :: "'a simplifier"
    assume f: "engine_fields t = engine_fields self"
    let ?E' = "E\<lparr>log_level := l\<rparr>"
    obtain canon self1 where c: "canonize_call E expression self = (canon, self1)"
      by (cases "canonize_call E expression self")
    obtain e_new self2 where a: "apply_simp E self1 canon = (e_new, self2)"
      by (cases "apply_simp E self1 canon")
    obtain canon' t1 where c': "canonize_call ?E' expression t = (canon', t1)"
      by (cases "canonize_call ?E' expression t")
    obtain e_new' t2 where a': "apply_simp ?E' t1 canon' = (e_new', t2)"
      by (cases "apply_simp ?E' t1 canon'")
    have st: "e_new' = e_new" "engine_fields t2 = engine_fields self2"
      using level_step [OF f c a c' a'] by simp_all
    show "outcome (expr_simp_while ?E' (Suc fuel) expression t)
        = outcome (expr_simp_while E (Suc fuel) expression self)"
    proof (cases "e_new = expression")
      case True
      have "expr_simp_while E (Suc fuel) expression self = Some (e_new, add_simplified e_new self2)"
        using c a True by simp
      moreover have "expr_simp_while ?E' (Suc fuel) expression t
          = Some (e_new, add_simplified e_new t2)"
        using c' a' True st by simp
      ultimately show ?thesis
        using fields_add_simplified [OF st(2)] by (simp add: outcome_Some)
    next
      case False
      have u: "expr_simp_while E (Suc fuel) expression self =
          (case expr_simp_wrapper E fuel None e_new self2 of None \<Rightarrow> None
           | Some (e', s3) \<Rightarrow> expr_simp_while E fuel e' (add_simplified e' s3))"
        using c a False by simp
      have u': "expr_simp_while ?E' (Suc fuel) expression t =
          (case expr_simp_wrapper ?E' fuel None e_new t2 of None \<Rightarrow> None
           | Some (e', s3) \<Rightarrow> expr_simp_while ?E' fuel e' (add_simplified e' s3))"
        using c' a' False st by simp
      have w: "outcome (expr_simp_wrapper ?E' fuel None e_new t2)
          = outcome (expr_simp_wrapper E fuel None e_new self2)"
        using "3.IH"(1) [OF c [symmetric] a [symmetric] False] st(2) by blast
      show ?thesis
      proof (cases "expr_simp_wrapper E fuel None e_new self2")
        case None
        then have "expr_simp_wrapper ?E' fuel None e_new t2 = None"
          using w by (simp add: outcome_None outcome_of_None)
        then show ?thesis using None u u' by simp
      next
        case (Some res)
        obtain e' self3 where res: "res = (e', self3)" by (cases res)
        have ws: "expr_simp_wrapper E fuel None e_new self2 = Some (e', self3)"
          using Some res by simp
        obtain t3 where wt: "expr_simp_wrapper ?E' fuel None e_new t2 = Some (e', t3)"
          and f3: "engine_fields t3 = engine_fields self3"
          using outcome_eq_Some [of "expr_simp_wrapper ?E' fuel None e_new t2" e' self3] w ws
          by auto
        have "outcome (expr_simp_while ?E' fuel e' (add_simplified e' t3))
            = outcome (expr_simp_while E fuel e' (add_simplified e' self3))"
          using "3.IH"(2) [OF c [symmetric] a [symmetric] False ws refl]
            fields_add_simplified [OF f3] by blast
        then show ?thesis using u u' ws wt by simp
      qed
    qed
  qed
next
  case (4 E fuel callback expression self)
  show ?case
  proof (intro allI impI)
    fix t :: "'a simplifier"
    assume cb: "callback = None" and f: "engine_fields t = engine_fields self"
    show "outcome (expr_simp_wrapper (E\<lparr>log_level := l\<rparr>) fuel callback expression t)
        = outcome (expr_simp_wrapper E fuel callback expression self)"
    proof (cases "expression \<in> simplified_exprs self")
      case True
      then show ?thesis using f by (simp add: fields_eq outcome_Some expr_simp_wrapper.simps)
    next
      case False
      then have "expression \<notin> simplified_exprs t" using f by (simp add: fields_eq)
      then show ?thesis using "4.IH" [OF False] f False cb by (simp add: expr_simp_wrapper.simps)
    qed
  qed
next
  case (5 E fuel callback c p as self)
  show ?case
  proof (intro allI impI)
    fix t :: "'a simplifier"
    assume cb: "callback = None" and f: "engine_fields t = engine_fields self"
    let ?E' = "E\<lparr>log_level := l\<rparr>"
    show "outcome (visit ?E' fuel callback (Expr c p as) t)
        = outcome (visit E fuel callback (Expr c p as) self)"
    proof (cases "test_visit self (Expr c p as)")
      case False
      then have "\<not> test_visit t (Expr c p as)" using f by (simp add: fields_eq test_visit_def)
      then show ?thesis using False f by (simp add: outcome_Some)
    next
      case True
      then have T': "test_visit t (Expr c p as)" using f by (simp add: fields_eq test_visit_def)
      have va: "outcome (visit_args ?E' fuel callback as t) = outcome (visit_args E fuel callback as self)"
        using "5.IH"(1) True cb f by blast
      show ?thesis
      proof (cases "visit_args E fuel callback as self")
        case None
        then have "visit_args ?E' fuel callback as t = None"
          using va by (simp add: outcome_None outcome_of_None)
        then show ?thesis using None True T' by simp
      next
        case (Some res)
        obtain as' self1 where res: "res = (as', self1)" by (cases res)
        have vs: "visit_args E fuel callback as self = Some (as', self1)"
          using Some res by simp
        obtain t1 where vt: "visit_args ?E' fuel callback as t = Some (as', t1)"
          and f1: "engine_fields t1 = engine_fields self1"
          using outcome_eq_Some [of "visit_args ?E' fuel callback as t" as' self1] va vs by auto
        let ?new = "if as' \<noteq> as then Expr c p as' else Expr c p as"
        have "outcome (expr_simp ?E' fuel ?new t1) = outcome (expr_simp E fuel ?new self1)"
          using "5.IH"(2) [OF _ vs refl refl cb] True f1 by blast
        then show ?thesis
          using True T' vs vt cb by (simp add: Let_def)
      qed
    qed
  qed
next
  case (6 E fuel callback self)
  show ?case by (simp add: outcome_Some)
next
  case (7 E fuel callback a as self)
  show ?case
  proof (intro allI impI)
    fix t :: "'a simplifier"
    assume cb: "callback = None" and f: "engine_fields t = engine_fields self"
    let ?E' = "E\<lparr>log_level := l\<rparr>"
    have v: "outcome (visit ?E' fuel callback a t) = outcome (visit E fuel callback a self)"
      using "7.IH"(1) cb f by blast
    show "outcome (visit_args ?E' fuel callback (a # as) t)
        = outcome (visit_args E fuel callback (a # as) self)"
    proof (cases "visit E fuel callback a self")
      case None
      then have "visit ?E' fuel callback a t = None" using v by (simp add: outcome_None outcome_of_None)
      then show ?thesis using None by simp
    next
      case (Some res)
      obtain a' self1 where res: "res = (a', self1)" by (cases res)
      have vs: "visit E fuel callback a self = Some (a', self1)" using Some res by simp
      obtain t1 where vt: "visit ?E' fuel callback a t = Some (a', t1)"
        and f1: "engine_fields t1 = engine_fields self1"
        using outcome_eq_Some [of "visit ?E' fuel callback a t" a' self1] v vs by auto
      have r: "outcome (visit_args ?E' fuel callback as t1) = outcome (visit_args E fuel callback as self1)"
        using "7.IH"(2) [OF vs refl] cb f1 by blast
      show ?thesis
      proof (cases "visit_args E fuel callback as self1")
        case None
        then have "visit_args ?E' fuel callback as t1 = None" using r by (simp add: outcome_None outcome_of_None)
        then show ?thesis using None vs vt by simp
      next
        case (Some res2)
        obtain as' self2 where res2: "res2 = (as', self2)" by (cases res2)
        have ws: "visit_args E fuel callback as self1 = Some (as', self2)" using Some res2 by simp
        obtain t2 where wt: "visit_args ?E' fuel callback as t1 = Some (as', t2)"
          and f2: "engine_fields t2 = engine_fields self2"
          using outcome_eq_Some [of "visit_args ?E' fuel callback as t1" as' self2] r ws by auto
        show ?thesis using vs vt ws wt f2 by (simp add: outcome_Some)
      qed
    qed
  qed
qed

subsection \<open>Evaluating the examples\<close>

lemmas example_defs =
  id_a_def id_b_def add_ba_def add_ab_def int_5_def add_2_3_def my_add_ab_def wrapped_def
  neg_a_def neg_b_def env_sort_def toy_cb_def env_toy_def toy_passes_def toy_engine_def
  fold_engine_def keep_engine_def spec_engine_def

lemmas engine_defs =
  init_def enable_passes_def fast_unify_def get_list_def apply_simp_def canonize_call_def
  add_simplified_def test_visit_def DEBUG_def Let_def

lemma run_sort:
  "expr_simp_while env_sort (Suc (Suc 0)) add_ba init = Some (add_ab, sort_final)"
  by (simp add: sort_final_def example_defs engine_defs insert_commute)

lemma run_toy:
  "expr_simp env_toy (Suc (Suc (Suc 0))) wrapped toy_engine = Some (neg_b, toy_final)"
  by (simp add: toy_final_def example_defs engine_defs insert_commute)

subsection \<open>The node returned is recorded and stable\<close>

lemma expr_simp_wrapper_recorded:
  assumes "expr_simp_wrapper E n None e s = Some (r, s')"
  shows "r \<in> simplified_exprs s'"
proof (cases "e \<in> simplified_exprs s")
  case True
  then show ?thesis using assms by simp
next
  case False
  obtain c p as where e: "e = Expr c p as" by (cases e)
  have "visit E n None (Expr c p as) s = Some (r, s')"
    using assms False e by simp
  then obtain as' s1 where
    "expr_simp E n (if as' \<noteq> as then Expr c p as' else Expr c p as) s1 = Some (r, s')"
    using False e by (auto simp: test_visit_def Let_def split: option.splits simp del: expr_simp.simps)
  then show ?thesis by (rule expr_simp_recorded)
qed

lemma expr_simp_while_Suc:
  "expr_simp_while E (Suc n) x s =
     (if fst (apply_simp E (snd (canonize_call E x s)) (canonize E x)) = x
      then Some (x, add_simplified x (snd (apply_simp E (snd (canonize_call E x s)) (canonize E x))))
      else case expr_simp_wrapper E n None
                  (fst (apply_simp E (snd (canonize_call E x s)) (canonize E x)))
                  (snd (apply_simp E (snd (canonize_call E x s)) (canonize E x))) of
             None \<Rightarrow> None
           | Some (e', s3) \<Rightarrow> expr_simp_while E n e' (add_simplified e' s3))"
  by (simp add: canonize_call_def split: prod.splits del: expr_simp_wrapper.simps)

lemma expr_simp_while_exit:
  "fst (apply_simp E (snd (canonize_call E x s)) (canonize E x)) = x \<Longrightarrow>
   expr_simp_while E (Suc n) x s
     = Some (x, add_simplified x (snd (apply_simp E (snd (canonize_call E x s)) (canonize E x))))"
  by (simp add: expr_simp_while_Suc del: expr_simp_while.simps expr_simp_wrapper.simps)

lemma expr_simp_while_again:
  "fst (apply_simp E (snd (canonize_call E x s)) (canonize E x)) \<noteq> x \<Longrightarrow>
   expr_simp_while E (Suc n) x s
     = (case expr_simp_wrapper E n None
               (fst (apply_simp E (snd (canonize_call E x s)) (canonize E x)))
               (snd (apply_simp E (snd (canonize_call E x s)) (canonize E x))) of
          None \<Rightarrow> None
        | Some (e', s3) \<Rightarrow> expr_simp_while E n e' (add_simplified e' s3))"
  by (simp add: expr_simp_while_Suc del: expr_simp_while.simps expr_simp_wrapper.simps)

lemma apply_simp_after_canonize_call:
  "fst (apply_simp E (snd (canonize_call E x s)) e) = fst (apply_simp E s e)"
  by (rule apply_simp_fst_table) (simp add: canonize_call_def)

lemma expr_simp_while_stable:
  "expr_simp_while E n x s = Some (r, s') \<Longrightarrow> stable E s' r"
proof (induction n arbitrary: x s)
  case 0
  then show ?case by simp
next
  case (Suc n)
  let ?s2 = "snd (apply_simp E (snd (canonize_call E x s)) (canonize E x))"
  let ?e = "fst (apply_simp E (snd (canonize_call E x s)) (canonize E x))"
  show ?case
  proof (cases "?e = x")
    case True
    then have res: "r = x" "s' = add_simplified x ?s2"
      using Suc.prems expr_simp_while_exit [OF True, of n] by simp_all
    have "expr_simp_cb s' = expr_simp_cb s"
      using res apply_simp_snd [of E "snd (canonize_call E x s)" "canonize E x"]
      by (auto simp: add_simplified_def canonize_call_def)
    then have "fst (apply_simp E s' (canonize E x)) = fst (apply_simp E s (canonize E x))"
      by (rule apply_simp_fst_table)
    then show ?thesis
      using True res by (simp add: stable_def apply_simp_after_canonize_call)
  next
    case False
    then obtain e' s3 where "expr_simp_while E n e' (add_simplified e' s3) = Some (r, s')"
      using Suc.prems expr_simp_while_again [OF False, of n]
      by (auto split: option.splits simp del: expr_simp_while.simps expr_simp_wrapper.simps)
    then show ?thesis by (rule Suc.IH)
  qed
qed

lemma run_toy_while:
  "expr_simp_while env_toy (Suc (Suc (Suc 0))) wrapped toy_engine = Some (neg_b, toy_final)"
  by (simp add: toy_final_def example_defs engine_defs insert_commute)

lemma expr_simp_while_trace:
  assumes "expr_simp_while E n x s = Some (r, s')"
  shows "\<exists>evs. trace s' = trace (snd (apply_simp E (snd (canonize_call E x s)) (canonize E x))) @ evs"
proof (cases n)
  case 0
  then show ?thesis using assms by simp
next
  case (Suc k)
  let ?s2 = "snd (apply_simp E (snd (canonize_call E x s)) (canonize E x))"
  let ?e = "fst (apply_simp E (snd (canonize_call E x s)) (canonize E x))"
  show ?thesis
  proof (cases "?e = x")
    case True
    then have "s' = add_simplified x ?s2"
      using assms Suc expr_simp_while_exit [OF True, of k] by simp
    then show ?thesis by (simp add: add_simplified_def)
  next
    case False
    then obtain e' s3 where w: "expr_simp_wrapper E k None ?e ?s2 = Some (e', s3)"
      and l: "expr_simp_while E k e' (add_simplified e' s3) = Some (r, s')"
      using assms Suc expr_simp_while_again [OF False, of k]
      by (auto split: option.splits simp del: expr_simp_while.simps expr_simp_wrapper.simps)
    have "extends ?s2 s3" using w by (rule run_extends(3))
    moreover have "extends s3 (add_simplified e' s3)" by (rule extends_add)
    moreover have "extends (add_simplified e' s3) s'" using l by (rule run_extends(2))
    ultimately have "extends ?s2 s'" using extends_trans by blast
    then show ?thesis by (simp add: extends_def)
  qed
qed

subsection \<open>enable_passes writes new lists and its own dict only\<close>

lemma merge_item_lists:
  "\<exists>ls. list_objs (merge_item cb item h) = list_objs h @ ls"
  by (cases item) (simp add: merge_item_def new_list_def Let_def split: prod.splits)

lemma merge_item_dicts:
  "length (dict_objs (merge_item cb item h)) = length (dict_objs h) \<and>
   (\<forall>d. d \<noteq> cb \<longrightarrow> dict_objs (merge_item cb item h) ! d = dict_objs h ! d)"
  by (cases item) (simp add: merge_item_def new_list_def Let_def split: prod.splits)

lemma fold_merge_item_lists:
  "\<exists>ls. list_objs (fold (merge_item cb) items h) = list_objs h @ ls"
proof (induction items arbitrary: h)
  case Nil
  show ?case by simp
next
  case (Cons item items)
  obtain ls1 where "list_objs (merge_item cb item h) = list_objs h @ ls1"
    using merge_item_lists by blast
  moreover obtain ls2 where
    "list_objs (fold (merge_item cb) items (merge_item cb item h))
       = list_objs (merge_item cb item h) @ ls2"
    using Cons.IH by blast
  ultimately show ?case by simp
qed

lemma fold_merge_item_dicts:
  "length (dict_objs (fold (merge_item cb) items h)) = length (dict_objs h) \<and>
   (\<forall>d. d \<noteq> cb \<longrightarrow> dict_objs (fold (merge_item cb) items h) ! d = dict_objs h ! d)"
proof (induction items arbitrary: h)
  case Nil
  show ?case by simp
next
  case (Cons item items)
  show ?case using Cons.IH [of "merge_item cb item h"] merge_item_dicts [of cb item h] by simp
qed

subsection \<open>The store and the tables: both models of enable_passes agree\<close>

lemma map_of_dict_set:
  "map_of (map (\<lambda>(k, r). (k, g r)) (dict_set k r d))
     = (map_of (map (\<lambda>(k, r). (k, g r)) d))(k \<mapsto> g r)"
  by (induction k r d rule: dict_set.induct) (auto simp: fun_eq_iff)

lemma dict_set_keys: "fst ` set (dict_set k r d) = insert k (fst ` set d)"
  by (induction k r d rule: dict_set.induct) force+

lemma dict_set_distinct: "distinct (map fst d) \<Longrightarrow> distinct (map fst (dict_set k r d))"
  by (induction k r d rule: dict_set.induct) (auto simp: dict_set_keys)

lemma dict_set_list_all: "list_all P d \<Longrightarrow> P (k, r) \<Longrightarrow> list_all P (dict_set k r d)"
  by (induction k r d rule: dict_set.induct) simp_all

lemma map_of_map_refs:
  "map_of (map (\<lambda>(k, r). (k, g r)) d) k = map_option g (map_of d k)"
  by (induction d) auto

lemma table_of_lookup:
  "table_of h d k = map_option (\<lambda>r. list_objs h ! r) (map_of (dict_objs h ! d) k)"
  by (simp add: table_of_def map_of_map_refs)

lemma table_of_extend:
  assumes "list_all (\<lambda>(k, r). r < length (list_objs h)) d"
  shows "map_of (map (\<lambda>(k, r). (k, (list_objs h @ ls) ! r)) d)
       = map_of (map (\<lambda>(k, r). (k, list_objs h ! r)) d)"
proof -
  have m: "map (\<lambda>(k, r). (k, (list_objs h @ ls) ! r)) d = map (\<lambda>(k, r). (k, list_objs h ! r)) d"
    by (rule map_cong [OF refl]) (use assms in \<open>auto simp: list_all_iff nth_append\<close>)
  show ?thesis by (simp only: m)
qed

lemma merge_item_table:
  assumes "valid_dict h cb" and "v < length (list_objs h)"
  shows "table_of (merge_item cb (k, v) h) cb
           = (table_of h cb)(k \<mapsto> fast_unify (get_list (table_of h cb) k @ list_objs h ! v)) \<and>
         valid_dict (merge_item cb (k, v) h) cb"
proof -
  let ?d = "dict_objs h ! cb"
  let ?old = "case map_of ?d k of None \<Rightarrow> [] | Some r \<Rightarrow> list_objs h ! r"
  let ?l1 = "?old @ list_objs h ! v"
  let ?l2 = "fast_unify ?l1"
  let ?r2 = "Suc (length (list_objs h))"
  let ?h' = "merge_item cb (k, v) h"
  have cb: "cb < length (dict_objs h)" and dist: "distinct (map fst ?d)"
    and refs: "list_all (\<lambda>(k, r). r < length (list_objs h)) ?d"
    using assms(1) by (simp_all add: valid_dict_def)
  have lists: "list_objs ?h' = list_objs h @ [?l1, ?l2]"
    by (simp add: merge_item_def new_list_def Let_def nth_append)
  have dict: "dict_objs ?h' ! cb = dict_set k ?r2 ?d"
    using cb by (simp add: merge_item_def new_list_def Let_def)
  have len: "length (dict_objs ?h') = length (dict_objs h)"
    by (simp add: merge_item_def new_list_def Let_def)
  have old: "?old = get_list (table_of h cb) k"
    by (simp add: get_list_def table_of_lookup split: option.splits)
  have "table_of ?h' cb
      = (map_of (map (\<lambda>(k, r). (k, (list_objs h @ [?l1, ?l2]) ! r)) ?d))
          (k \<mapsto> (list_objs h @ [?l1, ?l2]) ! ?r2)"
    by (simp only: table_of_def lists dict map_of_dict_set)
  also have "(list_objs h @ [?l1, ?l2]) ! ?r2 = ?l2"
    by (simp add: nth_append)
  also have "map_of (map (\<lambda>(k, r). (k, (list_objs h @ [?l1, ?l2]) ! r)) ?d) = table_of h cb"
    using table_of_extend [OF refs] by (simp add: table_of_def)
  finally have t: "table_of ?h' cb = (table_of h cb)(k \<mapsto> ?l2)" .
  have "list_all (\<lambda>(k, r). r < length (list_objs ?h')) ?d"
    using refs by (auto simp: list_all_iff lists)
  then have "list_all (\<lambda>(k, r). r < length (list_objs ?h')) (dict_set k ?r2 ?d)"
    by (rule dict_set_list_all) (simp add: lists)
  then have "valid_dict ?h' cb"
    using cb dist by (simp add: valid_dict_def len dict dict_set_distinct)
  then show ?thesis using t old by simp
qed

lemma fold_merge_item_table:
  assumes "valid_dict h cb" and "distinct (map fst items)"
    and "list_all (\<lambda>(k, r). r < length (list_objs h)) items"
  shows "table_of (fold (merge_item cb) items h) cb
       = (\<lambda>k. case map_of (map (\<lambda>(k, r). (k, list_objs h ! r)) items) k of
                None \<Rightarrow> table_of h cb k
              | Some v \<Rightarrow> Some (fast_unify (get_list (table_of h cb) k @ v)))"
  using assms
proof (induction items arbitrary: h)
  case Nil
  show ?case by simp
next
  case (Cons item items)
  obtain k v where item: "item = (k, v)" by (cases item)
  let ?h1 = "merge_item cb (k, v) h"
  let ?u = "fast_unify (get_list (table_of h cb) k @ list_objs h ! v)"
  have v: "v < length (list_objs h)"
    and refs: "list_all (\<lambda>(k, r). r < length (list_objs h)) items"
    and fresh: "k \<notin> fst ` set items" and dist: "distinct (map fst items)"
    using Cons.prems item by simp_all
  have t1: "table_of ?h1 cb = (table_of h cb)(k \<mapsto> ?u)" and v1: "valid_dict ?h1 cb"
    using merge_item_table [OF Cons.prems(1) v] by simp_all
  obtain ls where ls: "list_objs ?h1 = list_objs h @ ls"
    using merge_item_lists by blast
  have refs1: "list_all (\<lambda>(k, r). r < length (list_objs ?h1)) items"
    using refs by (auto simp: list_all_iff ls)
  have same: "map_of (map (\<lambda>(k, r). (k, list_objs ?h1 ! r)) items)
      = map_of (map (\<lambda>(k, r). (k, list_objs h ! r)) items)"
    using table_of_extend [OF refs] by (simp only: ls)
  have none: "map_of (map (\<lambda>(k, r). (k, list_objs h ! r)) items) k = None"
    using fresh by (simp add: map_of_eq_None_iff image_image case_prod_unfold)
  have "table_of (fold (merge_item cb) (item # items) h) cb
      = table_of (fold (merge_item cb) items ?h1) cb"
    by (simp add: item)
  also have "\<dots> = (\<lambda>k'. case map_of (map (\<lambda>(k, r). (k, list_objs h ! r)) items) k' of
                None \<Rightarrow> table_of ?h1 cb k'
              | Some v' \<Rightarrow> Some (fast_unify (get_list (table_of ?h1 cb) k' @ v')))"
    using Cons.IH [OF v1 dist refs1] by (simp only: same)
  also have "\<dots> = (\<lambda>k'. case map_of (map (\<lambda>(k, r). (k, list_objs h ! r)) (item # items)) k' of
                None \<Rightarrow> table_of h cb k'
              | Some v' \<Rightarrow> Some (fast_unify (get_list (table_of h cb) k' @ v')))"
    using none by (auto simp: fun_eq_iff item t1 get_list_def split: option.splits)
  finally show ?case .
qed

lemma enable_passes_store_refines:
  assumes "passes \<noteq> expr_simp_cb_ref self" and "valid_dict h passes"
    and "valid_dict h (expr_simp_cb_ref self)"
    and "enable_passes_store passes self h = (self', h')"
  shows "table_of h' (expr_simp_cb_ref self')
           = expr_simp_cb (enable_passes (table_of h passes)
               \<lparr>expr_simp_cb = table_of h (expr_simp_cb_ref self),
                simplified_exprs = simplified_exprs_obj self, trace = []\<rparr>) \<and>
         simplified_exprs_obj self'
           = simplified_exprs (enable_passes (table_of h passes)
               \<lparr>expr_simp_cb = table_of h (expr_simp_cb_ref self),
                simplified_exprs = simplified_exprs_obj self, trace = []\<rparr>)"
proof -
  have s: "self' = self\<lparr>simplified_exprs_obj := {}\<rparr>"
    and h': "h' = fold (merge_item (expr_simp_cb_ref self)) (dict_objs h ! passes) h"
    using assms(4) by (simp_all add: enable_passes_store_def)
  have "table_of h' (expr_simp_cb_ref self)
      = (\<lambda>k. case table_of h passes k of
                None \<Rightarrow> table_of h (expr_simp_cb_ref self) k
              | Some v \<Rightarrow> Some (fast_unify (get_list (table_of h (expr_simp_cb_ref self)) k @ v)))"
    using fold_merge_item_table [OF assms(3), of "dict_objs h ! passes"] assms(2)
    by (simp add: h' valid_dict_def table_of_def)
  then show ?thesis
    by (auto simp: s enable_passes_def fun_eq_iff split: option.splits)
qed

lemma stable_unify_after_distinct:
  "distinct old \<Longrightarrow>
   stable_unify (old @ v) = old @ stable_unify (filter (\<lambda>f. f \<notin> set old) v)"
proof -
  assume d: "distinct old"
  have "fast_unify (old @ v) = fast_unify_loop (fast_unify_loop [] old) v"
    by (simp only: fast_unify_def fast_unify_loop_append)
  also have "fast_unify_loop [] old = old"
    using fast_unify_loop_fresh [of old "[]"] d by simp
  also have "fast_unify_loop old v = old @ stable_unify (filter (\<lambda>f. f \<notin> set old) v)"
    by (rule fast_unify_loop_stable)
  finally show ?thesis by (simp only: fast_unify_stable)
qed

lemma PASS_COMMONS_ExprOp:
  "PASS_COMMONS ExprOp = Some
       [''simp_cst_propagation'', ''simp_cond_op_int'', ''simp_cond_factor'',
        ''simp_add_multiple'', ''simp_cc_conds'', ''simp_subwc_cf'', ''simp_subwc_of'',
        ''simp_sign_subwc_cf'', ''simp_double_zeroext'', ''simp_double_signext'',
        ''simp_zeroext_eq_cst'', ''simp_ext_eq_ext'', ''simp_cmp_int'',
        ''simp_cmp_bijective_op'', ''simp_sign_inf_zeroext'', ''simp_cmp_int_int'',
        ''simp_ext_cst'', ''simp_zeroext_and_cst_eq_cst'', ''simp_test_signext_inf'',
        ''simp_test_zeroext_inf'', ''simp_cond_inf_eq_unsigned_zero'',
        ''simp_compose_and_mask'']"
  by (simp add: PASS_COMMONS_def)

lemma expr_simp_inst_ExprOp:
  "expr_simp_cb (expr_simp_inst :: string simplifier) ExprOp = PASS_COMMONS ExprOp"
  by (simp add: PASS_COMMONS_ExprOp)
     (simp add: expr_simp_inst_def PASS_COMMONS_def enable_passes_def init_def get_list_def
        fast_unify_def)

section \<open>The claims\<close>

text \<open>
  C5. Every call of \<open>enable_passes\<close>, whatever the pass table given (empty, or already
  enabled), leaves the cache of the engine empty; so the next \<open>expr_simp\<close> of any node
  cannot return on the cache test and enters the loop.
\<close>

theorem enable_passes_clears_cache:
  "simplified_exprs (enable_passes passes self) = {} \<and>
   expr_simp E n e (enable_passes passes self) = expr_simp_while E n e (enable_passes passes self)"
  by (simp add: enable_passes_def)

text \<open>
  C6. \<open>enable_passes\<close> unifies stably. A kind that is not in the given table keeps its list.
  A kind of the given table gets the concatenation of the list the engine has for it (of
  nothing, when the engine has none) and of the new list, with duplicates removed and
  every callback at the place of its first occurrence: the result is duplicate-free, it
  has exactly the callbacks of both lists, and a duplicate-free list of the engine is kept
  as it is, with the callbacks that are new after it. Enabling the same table a second
  time changes nothing.
\<close>

theorem enable_passes_stable_unify:
  "(passes k = None \<longrightarrow> expr_simp_cb (enable_passes passes self) k = expr_simp_cb self k) \<and>
   (\<forall>v. passes k = Some v \<and> expr_simp_cb self k = None \<longrightarrow>
      expr_simp_cb (enable_passes passes self) k = Some (stable_unify v) \<and>
      distinct (stable_unify v) \<and> set (stable_unify v) = set v) \<and>
   (\<forall>old v. passes k = Some v \<and> expr_simp_cb self k = Some old \<longrightarrow>
      expr_simp_cb (enable_passes passes self) k = Some (stable_unify (old @ v)) \<and>
      distinct (stable_unify (old @ v)) \<and>
      set (stable_unify (old @ v)) = set old \<union> set v \<and>
      (distinct old \<longrightarrow>
         stable_unify (old @ v) = old @ stable_unify (filter (\<lambda>f. f \<notin> set old) v))) \<and>
   enable_passes passes (enable_passes passes self) = enable_passes passes self"
proof -
  have u: "distinct (stable_unify xs)" "set (stable_unify xs) = set xs" for xs :: "callback list"
    using distinct_fast_unify [of xs] set_fast_unify [of xs] by (simp_all add: fast_unify_stable)
  have none: "expr_simp_cb (enable_passes passes self) k = expr_simp_cb self k"
    if "passes k = None"
    using that by (simp add: enable_passes_def)
  have new: "expr_simp_cb (enable_passes passes self) k = Some (stable_unify v)"
    if "passes k = Some v" "expr_simp_cb self k = None" for v
    using that by (simp add: enable_passes_def get_list_def fast_unify_stable)
  have merge: "expr_simp_cb (enable_passes passes self) k = Some (stable_unify (old @ v))"
    if "passes k = Some v" "expr_simp_cb self k = Some old" for old v
    using that by (simp add: enable_passes_def get_list_def fast_unify_stable)
  show ?thesis
    using none new merge u stable_unify_after_distinct enable_passes_twice [of passes self]
    by (intro conjI allI impI) (simp_all del: stable_unify.simps)
qed

theorem enable_passes_stable_unify_witness:
  "expr_simp_cb keep_engine ExprOp = Some [''unwrap'', ''rename''] \<and>
   more_passes ExprOp = Some [''rename'', ''wrong'', ''unwrap'', ''wrong''] \<and>
   expr_simp_cb (enable_passes more_passes keep_engine) ExprOp
     = Some [''unwrap'', ''rename'', ''wrong''] \<and>
   expr_simp_cb keep_engine ExprId = None \<and>
   more_passes ExprId = Some [''rename'', ''rename''] \<and>
   expr_simp_cb (enable_passes more_passes keep_engine) ExprId = Some [''rename''] \<and>
   more_passes ExprCond = None \<and>
   expr_simp_cb (enable_passes more_passes keep_engine) ExprCond = None \<and>
   enable_passes more_passes (enable_passes more_passes keep_engine)
     = enable_passes more_passes keep_engine \<and>
   expr_simp_cb (expr_simp_inst :: string simplifier) ExprOp = PASS_COMMONS ExprOp \<and>
   length (the (PASS_COMMONS ExprOp)) = 22 \<and>
   PASS_HIGH_TO_EXPLICIT ExprOp = Some [''simp_flags'', ''simp_ext''] \<and>
   expr_simp_cb (expr_simp_explicit :: string simplifier) ExprOp
     = Some (the (PASS_COMMONS ExprOp) @ [''simp_flags'', ''simp_ext''])"
proof -
  have h: "PASS_HIGH_TO_EXPLICIT ExprOp = Some [''simp_flags'', ''simp_ext'']"
    by (simp add: PASS_HIGH_TO_EXPLICIT_def)
  have e: "(expr_simp_explicit :: string simplifier)
      = enable_passes PASS_HIGH_TO_EXPLICIT expr_simp_inst"
    by (simp only: expr_simp_explicit_def expr_simp_inst_def)
  have "expr_simp_cb (enable_passes PASS_HIGH_TO_EXPLICIT (expr_simp_inst :: string simplifier)) ExprOp
      = Some (stable_unify (the (PASS_COMMONS ExprOp) @ [''simp_flags'', ''simp_ext'']))"
    using enable_passes_stable_unify
        [of PASS_HIGH_TO_EXPLICIT ExprOp "expr_simp_inst :: string simplifier"]
      h expr_simp_inst_ExprOp PASS_COMMONS_ExprOp
    by (simp del: stable_unify.simps)
  then have 5: "expr_simp_cb (expr_simp_explicit :: string simplifier) ExprOp
      = Some (the (PASS_COMMONS ExprOp) @ [''simp_flags'', ''simp_ext''])"
    by (simp add: e PASS_COMMONS_ExprOp)
  have 6: "length (the (PASS_COMMONS ExprOp)) = 22"
    by (simp add: PASS_COMMONS_ExprOp)
  have op: "more_passes ExprOp = Some [''rename'', ''wrong'', ''unwrap'', ''wrong'']"
      "expr_simp_cb keep_engine ExprOp = Some [''unwrap'', ''rename'']"
    by (simp_all add: more_passes_def keep_engine_def enable_passes_def init_def get_list_def
          fast_unify_def)
  have ident: "more_passes ExprId = Some [''rename'', ''rename'']"
      "expr_simp_cb keep_engine ExprId = None"
    by (simp_all add: more_passes_def keep_engine_def enable_passes_def init_def)
  have cond: "more_passes ExprCond = None" "expr_simp_cb keep_engine ExprCond = None"
    by (simp_all add: more_passes_def keep_engine_def enable_passes_def init_def)
  have 1: "expr_simp_cb (enable_passes more_passes keep_engine) ExprOp
      = Some (stable_unify ([''unwrap'', ''rename''] @ [''rename'', ''wrong'', ''unwrap'', ''wrong'']))"
    using enable_passes_stable_unify [of more_passes ExprOp keep_engine] op by blast
  have 2: "expr_simp_cb (enable_passes more_passes keep_engine) ExprId
      = Some (stable_unify [''rename'', ''rename''])"
    using enable_passes_stable_unify [of more_passes ExprId keep_engine] ident by blast
  have 3: "expr_simp_cb (enable_passes more_passes keep_engine) ExprCond
      = expr_simp_cb keep_engine ExprCond"
    using enable_passes_stable_unify [of more_passes ExprCond keep_engine] cond by blast
  have 4: "enable_passes more_passes (enable_passes more_passes keep_engine)
      = enable_passes more_passes keep_engine"
    using enable_passes_stable_unify [of more_passes ExprCond keep_engine] by blast
  have small: "expr_simp_cb (enable_passes more_passes keep_engine) ExprOp
      = Some [''unwrap'', ''rename'', ''wrong'']"
      "expr_simp_cb (enable_passes more_passes keep_engine) ExprId = Some [''rename'']"
      "expr_simp_cb (enable_passes more_passes keep_engine) ExprCond = None"
    using 1 2 3 cond by simp_all
  from op ident cond small 4 expr_simp_inst_ExprOp 6 h 5 show ?thesis by blast
qed

text \<open>
  C3. \<open>apply_simp\<close> runs the callbacks registered for the class of the node in the order of
  the list, each on the result of the one before. As long as the results keep the class
  of the lookup (the first list, \<open>rs1\<close>), the run goes on: when the list is exhausted, the
  result is the node threaded through all of them and exactly they were invoked; when the
  next callback \<open>r\<close> returns a node of another class, that node is returned and no later
  callback is invoked.
\<close>

theorem apply_simp_threads_rules:
  assumes "get_list (expr_simp_cb self) (cls e) = rs1 @ rs2"
    and "\<forall>n<length rs1. cls (fold (run_cb E) (take (Suc n) rs1) e) = cls e"
  shows "(rs2 = [] \<longrightarrow>
            fst (apply_simp E self e) = fold (run_cb E) rs1 e \<and>
            invoked (trace (snd (apply_simp E self e))) = invoked (trace self) @ rs1) \<and>
         (\<forall>r rs3. rs2 = r # rs3 \<and> cls (run_cb E r (fold (run_cb E) rs1 e)) \<noteq> cls e \<longrightarrow>
            fst (apply_simp E self e) = run_cb E r (fold (run_cb E) rs1 e) \<and>
            invoked (trace (snd (apply_simp E self e))) = invoked (trace self) @ rs1 @ [r])"
proof -
  let ?d = "DEBUG \<le> log_level E"
  let ?mid = "fold (run_cb E) rs1 e"
  note p = apply_simp_loop_prefix [OF assms(2)]
  have f: "fst (apply_simp E self e) = fst (apply_simp_loop E ?d (cls e) rs2 ?mid)"
    using p assms(1) by (simp add: apply_simp_fst)
  have t: "invoked (trace (snd (apply_simp E self e)))
      = invoked (trace self) @ rs1 @ invoked (snd (apply_simp_loop E ?d (cls e) rs2 ?mid))"
    using p assms(1) by (simp add: apply_simp_trace invoked_append)
  have all: "rs2 = [] \<longrightarrow>
      fst (apply_simp E self e) = ?mid \<and>
      invoked (trace (snd (apply_simp E self e))) = invoked (trace self) @ rs1"
    by (simp add: f t)
  have stop: "fst (apply_simp E self e) = run_cb E r ?mid \<and>
      invoked (trace (snd (apply_simp E self e))) = invoked (trace self) @ rs1 @ [r]"
    if "rs2 = r # rs3" "cls (run_cb E r ?mid) \<noteq> cls e" for r rs3
    using that by (simp only: f t apply_simp_loop_fst_Cons apply_simp_loop_invoked_Cons) simp
  show ?thesis using all stop by blast
qed

theorem apply_simp_threads_rules_witness:
  "fst (apply_simp env_toy fold_engine add_2_3) = int_5 \<and>
   invoked (trace (snd (apply_simp env_toy fold_engine add_2_3))) = [''unwrap'', ''fold''] \<and>
   fst (apply_simp env_toy keep_engine wrapped) = neg_a \<and>
   invoked (trace (snd (apply_simp env_toy keep_engine wrapped))) = [''unwrap'', ''rename'']"
proof -
  have a1: "get_list (expr_simp_cb fold_engine) (cls add_2_3) = [''unwrap''] @ [''fold'', ''wrong'']"
    by (simp add: example_defs engine_defs)
  have a2: "\<forall>n<length [''unwrap''].
      cls (fold (run_cb env_toy) (take (Suc n) [''unwrap'']) add_2_3) = cls add_2_3"
    by (simp add: example_defs)
  have b1: "get_list (expr_simp_cb keep_engine) (cls wrapped) = [''unwrap'', ''rename''] @ []"
    by (simp add: example_defs engine_defs)
  have b2: "\<forall>n<length [''unwrap'', ''rename''].
      cls (fold (run_cb env_toy) (take (Suc n) [''unwrap'', ''rename'']) wrapped) = cls wrapped"
    by (simp add: example_defs less_Suc_eq)
  show ?thesis
    using apply_simp_threads_rules [OF a1 a2] apply_simp_threads_rules [OF b1 b2]
    by (simp add: example_defs engine_defs)
qed

text \<open>
  C10. The lookup is by the exact class of the node: a node whose class has no entry in the
  table (an instance of a class derived from a registered class, for one) is returned as
  it is and no callback is invoked. The test that stops the loop compares classes by
  identity: a callback that returns a node of a proper subclass of the class of the lookup
  stops the loop like any other change of class.
\<close>

theorem apply_simp_exact_class:
  "(expr_simp_cb self (cls e) = None \<longrightarrow> apply_simp E self e = (e, self)) \<and>
   (\<forall>r rs. expr_simp_cb self (cls e) = Some (r # rs) \<and> cls (run_cb E r e) \<noteq> cls e \<and>
       issubclass (cls (run_cb E r e)) (cls e) \<longrightarrow>
       fst (apply_simp E self e) = run_cb E r e \<and>
       invoked (trace (snd (apply_simp E self e))) = invoked (trace self) @ [r])"
proof -
  have none: "apply_simp E self e = (e, self)" if "expr_simp_cb self (cls e) = None"
    using that by (simp add: apply_simp_def get_list_def)
  have stop: "fst (apply_simp E self e) = run_cb E r e \<and>
      invoked (trace (snd (apply_simp E self e))) = invoked (trace self) @ [r]"
    if "expr_simp_cb self (cls e) = Some (r # rs)" "cls (run_cb E r e) \<noteq> cls e" for r rs
  proof -
    have g: "get_list (expr_simp_cb self) (cls e) = r # rs"
      using that(1) by (simp add: get_list_def)
    show ?thesis
      using that(2)
      by (simp only: apply_simp_fst apply_simp_trace g apply_simp_loop_fst_Cons
            apply_simp_loop_invoked_Cons invoked_append) simp
  qed
  show ?thesis using none stop by blast
qed

theorem apply_simp_exact_class_witness:
  "issubclass (cls my_add_ab) ExprOp \<and> expr_simp_cb expr_simp_inst ExprOp \<noteq> None \<and>
   expr_simp_cb expr_simp_inst (cls my_add_ab) = None \<and>
   apply_simp env_toy expr_simp_inst my_add_ab = (my_add_ab, expr_simp_inst) \<and>
   fst (apply_simp env_toy spec_engine add_ab) = my_add_ab \<and>
   invoked (trace (snd (apply_simp env_toy spec_engine add_ab))) = [''specialise'']"
proof -
  have n: "expr_simp_cb expr_simp_inst (cls my_add_ab) = None"
    by (simp add: my_add_ab_def expr_simp_inst_def enable_passes_def init_def PASS_COMMONS_def)
  have s: "expr_simp_cb spec_engine (cls add_ab) = Some (''specialise'' # [''wrong'']) \<and>
      cls (run_cb env_toy ''specialise'' add_ab) \<noteq> cls add_ab \<and>
      issubclass (cls (run_cb env_toy ''specialise'' add_ab)) (cls add_ab)"
    by (simp add: example_defs engine_defs)
  have r: "run_cb env_toy ''specialise'' add_ab = my_add_ab" "trace spec_engine = []"
    by (simp_all add: example_defs engine_defs)
  have o: "issubclass (cls my_add_ab) ExprOp" "expr_simp_cb expr_simp_inst ExprOp \<noteq> None"
    by (simp_all add: my_add_ab_def expr_simp_inst_def enable_passes_def init_def PASS_COMMONS_def)
  have p1: "apply_simp env_toy expr_simp_inst my_add_ab = (my_add_ab, expr_simp_inst)"
    using apply_simp_exact_class [of expr_simp_inst my_add_ab env_toy] n by blast
  have p2: "fst (apply_simp env_toy spec_engine add_ab) = run_cb env_toy ''specialise'' add_ab \<and>
      invoked (trace (snd (apply_simp env_toy spec_engine add_ab)))
        = invoked (trace spec_engine) @ [''specialise'']"
    using apply_simp_exact_class [of spec_engine add_ab env_toy] s by blast
  show ?thesis using p1 p2 n r o by simp
qed

text \<open>
  C4. Cache soundness. After \<open>expr_simp\<close> (or \<open>expr_simp_wrapper\<close> with its default callback)
  has returned \<open>r\<close>, the node \<open>r\<close> is in the cache of the engine, and simplifying \<open>r\<close> again
  on that engine, through either entry and with any fuel or callback, returns \<open>r\<close> with
  the engine exactly as it was: no event is added, so no callback and no \<open>canonize\<close> was
  invoked.
\<close>

theorem simplify_again_is_cache_hit:
  assumes "expr_simp E n e self = Some (r, self') \<or>
           expr_simp_wrapper E n None e self = Some (r, self')"
  shows "r \<in> simplified_exprs self' \<and>
         expr_simp E m r self' = Some (r, self') \<and>
         expr_simp_wrapper E m callback r self' = Some (r, self')"
proof -
  have "r \<in> simplified_exprs self'"
    using assms expr_simp_recorded expr_simp_wrapper_recorded by blast
  then show ?thesis by simp
qed

theorem simplify_again_is_cache_hit_witness:
  "expr_simp env_toy (Suc (Suc (Suc 0))) wrapped toy_engine = Some (neg_b, toy_final) \<and>
   neg_b \<in> simplified_exprs toy_final \<and>
   expr_simp env_toy 0 neg_b toy_final = Some (neg_b, toy_final) \<and>
   expr_simp_wrapper env_toy 0 None neg_b toy_final = Some (neg_b, toy_final)"
  using simplify_again_is_cache_hit [OF disjI1 [OF run_toy], of 0 None] run_toy by simp

text \<open>
  C7. Idempotence. With the callbacks pure and a cache that holds stable nodes only (the
  cache of a new engine, of an engine after \<open>enable_passes\<close>, and of any engine these
  functions have run on), the node \<open>r\<close> returned by \<open>expr_simp\<close> is a fixpoint: \<open>expr_simp\<close>
  of \<open>r\<close> returns \<open>r\<close> on every engine with the same pass table, whatever its cache, the
  engine left by the first call and a new engine included.
\<close>

theorem simplify_idempotent:
  assumes "cache_ok E self"
    and "expr_simp E n e self = Some (r, self')"
    and "expr_simp_cb other = expr_simp_cb self"
  shows "expr_simp_cb self' = expr_simp_cb self \<and> cache_ok E self' \<and>
         (\<exists>other'. expr_simp E (Suc m) r other = Some (r, other'))"
proof -
  have ok: "cache_ok E self'" and rec: "r \<in> simplified_exprs self'"
    using expr_simp_cache_ok [OF assms(1,2)] by simp_all
  have tab: "expr_simp_cb self' = expr_simp_cb self"
    using run_extends(1) [OF assms(2)] by (simp add: extends_def)
  have "stable E self' r" using ok rec by (simp add: cache_ok_def)
  then have "stable E other r"
    using stable_table [of self' other E r] tab assms(3) by simp
  then have "fst (apply_simp E (snd (canonize_call E r other)) (canonize E r)) = r"
    by (simp add: stable_def apply_simp_after_canonize_call)
  then have "\<exists>other'. expr_simp_while E (Suc m) r other = Some (r, other')"
    using expr_simp_while_exit by blast
  then have "\<exists>other'. expr_simp E (Suc m) r other = Some (r, other')"
    by (cases "r \<in> simplified_exprs other") (simp_all del: expr_simp_while.simps)
  then show ?thesis using tab ok by simp
qed

theorem simplify_idempotent_witness:
  "cache_ok env_toy toy_engine \<and>
   expr_simp env_toy (Suc (Suc (Suc 0))) wrapped toy_engine = Some (neg_b, toy_final) \<and>
   (\<exists>other'. expr_simp env_toy (Suc 0) neg_b toy_engine = Some (neg_b, other')) \<and>
   (\<exists>other'. expr_simp env_toy (Suc 0) neg_b toy_final = Some (neg_b, other'))"
proof -
  have ok: "cache_ok env_toy toy_engine"
    by (simp add: cache_ok_def toy_engine_def enable_passes_def)
  have t: "expr_simp_cb toy_final = expr_simp_cb toy_engine"
    by (simp add: toy_final_def)
  show ?thesis
    using simplify_idempotent [OF ok run_toy refl, of 0] simplify_idempotent [OF ok run_toy t, of 0]
      ok run_toy
    by simp
qed

text \<open>
  C8. Determinism. The outcome of a run (the node returned and the fields of the engine
  afterwards, or no result within the fuel) is a function of the callbacks, of \<open>canonize\<close>,
  of the pass table, of the cache and of the node: two engines with equal fields give the
  same outcome, whatever \<open>log_exprsimp.level\<close> is and whatever was logged before.
\<close>

theorem simplify_deterministic:
  assumes "engine_fields other = engine_fields self"
  shows "outcome (expr_simp (E\<lparr>log_level := l\<rparr>) n e other) = outcome (expr_simp E n e self) \<and>
         outcome (expr_simp_wrapper (E\<lparr>log_level := l\<rparr>) n None e other)
           = outcome (expr_simp_wrapper E n None e self) \<and>
         fst (apply_simp (E\<lparr>log_level := l\<rparr>) other e) = fst (apply_simp E self e)"
proof -
  have "expr_simp_cb other = expr_simp_cb self"
    using assms by (simp add: fields_eq)
  then have "fst (apply_simp (E\<lparr>log_level := l\<rparr>) other e) = fst (apply_simp E self e)"
    by (rule apply_simp_level)
  then show ?thesis
    using run_level_aux(1) [where s = self and E = E and l = l and n = n and e = e]
      run_level_aux(3) [where cb = None and s = self and E = E and l = l and n = n and e = e]
      assms
    by blast
qed

theorem simplify_deterministic_witness:
  "engine_fields (toy_engine\<lparr>trace := [Canonize id_a]\<rparr>) = engine_fields toy_engine \<and>
   outcome (expr_simp (env_toy\<lparr>log_level := 0\<rparr>) (Suc (Suc (Suc 0))) wrapped
              (toy_engine\<lparr>trace := [Canonize id_a]\<rparr>))
     = Some (neg_b, engine_fields toy_final) \<and>
   outcome (expr_simp env_toy (Suc (Suc (Suc 0))) wrapped toy_engine)
     = Some (neg_b, engine_fields toy_final)"
proof -
  have f: "engine_fields (toy_engine\<lparr>trace := [Canonize id_a]\<rparr>) = engine_fields toy_engine"
    by (simp add: engine_fields_def)
  show ?thesis
    using simplify_deterministic [OF f, where E = env_toy and l = 0
        and n = "Suc (Suc (Suc 0))" and e = wrapped] f run_toy
    by (simp add: outcome_Some)
qed

text \<open>
  C1, as the spec states it, fails: the loop of \<open>expr_simp\<close> compares the rewritten node
  with the current node as it was before \<open>canonize\<close>, not with its canonical form. On the
  engine without passes, \<open>b + a\<close> canonizes to \<open>a + b\<close> and \<open>apply_simp\<close> returns the
  canonical form as it is, so the test of the claim succeeds in the first turn; but the
  loop does not return there: one turn of fuel gives no result, and the run goes on into
  \<open>a + b\<close> and canonizes it twice more before it returns.
\<close>

theorem exit_test_counterexample:
  "fst (apply_simp env_sort init (canonize env_sort add_ba)) = canonize env_sort add_ba \<and>
   expr_simp_while env_sort (Suc 0) add_ba init = None \<and>
   expr_simp_while env_sort (Suc (Suc 0)) add_ba init = Some (add_ab, sort_final) \<and>
   trace sort_final = [Canonize add_ba, Canonize id_a, Canonize id_b, Canonize add_ab,
                       Canonize add_ab]"
  by (simp add: sort_final_def example_defs engine_defs insert_commute)

text \<open>
  C1, amended. Each turn of the loop canonizes the current node and runs \<open>apply_simp\<close> on
  the canonical form. The loop returns in its first turn exactly when that result equals
  the current node as it was before \<open>canonize\<close> (\<open>apply_simp(canonize(x)) == x\<close>). Whenever
  the loop returns a node, that node is recorded in the cache and passes this test
  against itself, and the events of the run begin with those of \<open>canonize\<close> and of
  \<open>apply_simp\<close> on the canonical form of the first node.
\<close>

theorem expr_simp_while_exit_test:
  "(expr_simp_while E (Suc 0) x self \<noteq> None \<longleftrightarrow> fst (apply_simp E self (canonize E x)) = x) \<and>
   (expr_simp_while E n x self = Some (r, self') \<longrightarrow>
      r \<in> simplified_exprs self' \<and>
      fst (apply_simp E self' (canonize E r)) = r \<and>
      (\<exists>evs. trace self'
         = trace (snd (apply_simp E (snd (canonize_call E x self)) (canonize E x))) @ evs))"
proof -
  let ?e = "fst (apply_simp E (snd (canonize_call E x self)) (canonize E x))"
  have first: "expr_simp_while E (Suc 0) x self \<noteq> None \<longleftrightarrow> ?e = x"
  proof (cases "?e = x")
    case True
    then show ?thesis using expr_simp_while_exit [OF True, of 0] by simp
  next
    case False
    have "expr_simp_while E (Suc 0) x self = None"
      using expr_simp_while_again [OF False, of 0]
      by (simp split: option.splits del: expr_simp_while.simps(2) expr_simp_wrapper.simps)
    then show ?thesis using False by simp
  qed
  have ret: "r \<in> simplified_exprs self' \<and> fst (apply_simp E self' (canonize E r)) = r \<and>
      (\<exists>evs. trace self'
         = trace (snd (apply_simp E (snd (canonize_call E x self)) (canonize E x))) @ evs)"
    if run: "expr_simp_while E n x self = Some (r, self')"
    using expr_simp_while_recorded [OF run] expr_simp_while_stable [OF run]
      expr_simp_while_trace [OF run]
    by (simp add: stable_def)
  show ?thesis
    using first ret by (simp only: apply_simp_after_canonize_call) blast
qed

theorem expr_simp_while_exit_test_witness:
  "expr_simp_while env_sort (Suc (Suc 0)) add_ba init = Some (add_ab, sort_final) \<and>
   (expr_simp_while env_sort (Suc 0) add_ba init \<noteq> None)
     = (fst (apply_simp env_sort init (canonize env_sort add_ba)) = add_ba) \<and>
   add_ab \<in> simplified_exprs sort_final \<and>
   fst (apply_simp env_sort sort_final (canonize env_sort add_ab)) = add_ab"
  using expr_simp_while_exit_test [of env_sort add_ba init "Suc (Suc 0)" add_ab sort_final] run_sort
  by simp

text \<open>
  C2, as the spec states it, fails: the node the loop records is the one returned by the
  recursive simplification, and it is recorded after the recursion. On the toy engine
  \<open>wrapped\<close> rewrites to \<open>- a\<close>; the recursion simplifies \<open>- a\<close> to \<open>- b\<close>; the run returns
  \<open>- b\<close>, and the node \<open>- a\<close>, the rewrite result before the recursion, is not in the
  cache.
\<close>

theorem pre_recursion_node_counterexample:
  "fst (apply_simp env_toy toy_engine (canonize env_toy wrapped)) = neg_a \<and>
   neg_a \<noteq> wrapped \<and>
   expr_simp env_toy (Suc (Suc (Suc 0))) wrapped toy_engine = Some (neg_b, toy_final) \<and>
   simplified_exprs toy_final = {id_b, neg_b} \<and>
   neg_a \<notin> simplified_exprs toy_final"
  by (simp add: toy_final_def example_defs engine_defs insert_commute)

text \<open>
  C2, amended. In every turn of the loop in which the rewrite changed the node (the node
  \<open>e_new\<close> returned by \<open>apply_simp\<close> is not the current node), the engine first simplifies
  \<open>e_new\<close> recursively with \<open>expr_simp_wrapper\<close>; when the recursion has returned, the node
  it returned is recorded in the cache of the engine the recursion left; the loop goes on
  with that node, and the node is still in the cache when \<open>expr_simp\<close> returns.
\<close>

theorem loop_records_recursion_result:
  assumes "canonize_call E x self = (canon, self1)"
    and "apply_simp E self1 canon = (e_new, self2)"
    and "e_new \<noteq> x"
    and "expr_simp_while E (Suc n) x self = Some (r, self')"
  shows "\<exists>e' self3.
           expr_simp_wrapper E n None e_new self2 = Some (e', self3) \<and>
           e' \<in> simplified_exprs (add_simplified e' self3) \<and>
           expr_simp_while E n e' (add_simplified e' self3) = Some (r, self') \<and>
           e' \<in> simplified_exprs self'"
proof -
  obtain e' self3 where w: "expr_simp_wrapper E n None e_new self2 = Some (e', self3)"
    and l: "expr_simp_while E n e' (add_simplified e' self3) = Some (r, self')"
    using assms by (auto split: option.splits simp del: expr_simp_wrapper.simps)
  have "extends (add_simplified e' self3) self'" using l by (rule run_extends(2))
  then have rec: "e' \<in> simplified_exprs self'"
    by (auto simp: extends_def add_simplified_def)
  have "e' \<in> simplified_exprs (add_simplified e' self3)"
    by (simp add: add_simplified_def)
  then show ?thesis using w l rec by blast
qed

theorem loop_records_recursion_result_witness:
  "canonize_call env_toy wrapped toy_engine
     = (wrapped, toy_engine\<lparr>trace := [Canonize wrapped]\<rparr>) \<and>
   apply_simp env_toy (toy_engine\<lparr>trace := [Canonize wrapped]\<rparr>) wrapped
     = (neg_a, toy_engine\<lparr>trace := [Canonize wrapped, Call ''unwrap'' wrapped,
                                      Debug ''unwrap'' wrapped neg_a]\<rparr>) \<and>
   neg_a \<noteq> wrapped \<and>
   expr_simp_while env_toy (Suc (Suc (Suc 0))) wrapped toy_engine = Some (neg_b, toy_final) \<and>
   (\<exists>e' self3.
      expr_simp_wrapper env_toy (Suc (Suc 0)) None neg_a
        (toy_engine\<lparr>trace := [Canonize wrapped, Call ''unwrap'' wrapped,
                               Debug ''unwrap'' wrapped neg_a]\<rparr>) = Some (e', self3) \<and>
      e' \<in> simplified_exprs (add_simplified e' self3) \<and>
      expr_simp_while env_toy (Suc (Suc 0)) e' (add_simplified e' self3) = Some (neg_b, toy_final) \<and>
      e' \<in> simplified_exprs toy_final)"
proof -
  have c: "canonize_call env_toy wrapped toy_engine
     = (wrapped, toy_engine\<lparr>trace := [Canonize wrapped]\<rparr>)"
    by (simp add: example_defs engine_defs)
  have a: "apply_simp env_toy (toy_engine\<lparr>trace := [Canonize wrapped]\<rparr>) wrapped
     = (neg_a, toy_engine\<lparr>trace := [Canonize wrapped, Call ''unwrap'' wrapped,
                                      Debug ''unwrap'' wrapped neg_a]\<rparr>)"
    by (simp add: example_defs engine_defs)
  have neq: "neg_a \<noteq> wrapped"
    by (simp add: example_defs)
  show ?thesis
    using loop_records_recursion_result [OF c a neq run_toy_while] c a neq run_toy_while
    by blast
qed

text \<open>
  C9, as the spec states it, fails for one call: when the table given is the engine's own
  dict \<open>expr_simp_cb\<close>, the assignment \<open>self.expr_simp_cb[k] = ...\<close> writes the argument. On
  the example store the dict of the engine (reference 1) maps \<open>ExprOp\<close> to the list at
  reference 1; after \<open>enable_passes\<close> of that very dict it maps \<open>ExprOp\<close> to a new list, at
  reference 3.
\<close>

theorem enable_passes_alias_counterexample:
  "expr_simp_cb_ref engine_ex = 1 \<and>
   dict_objs store_ex ! 1 = [(ExprOp, 1)] \<and>
   dict_objs (snd (enable_passes_store 1 engine_ex store_ex)) ! 1 = [(ExprOp, 3)] \<and>
   dict_objs (snd (enable_passes_store 1 engine_ex store_ex)) ! 1 \<noteq> dict_objs store_ex ! 1"
  by (simp add: enable_passes_store_def merge_item_def new_list_def store_ex_def engine_ex_def
        fast_unify_def Let_def)

text \<open>
  C9, amended. \<open>enable_passes\<close> modifies no list and no dict other than the engine's own
  \<open>expr_simp_cb\<close>. With the lists and dicts as objects of a store, for every call: every
  list object that exists before the call is the same after it (the engine gets new
  lists, built by \<open>+\<close> and \<open>fast_unify\<close>), no dict is created or removed, and every dict
  other than the engine's own is the same after the call. So a table given that is not
  the engine's own dict (a named pass set such as \<open>PASS_COMMONS\<close>) is the same dict after
  the call and stands for the same table, with the same list objects.
\<close>

theorem enable_passes_keeps_argument:
  assumes "enable_passes_store passes self h = (self', h')"
  shows "take (length (list_objs h)) (list_objs h') = list_objs h \<and>
         length (dict_objs h') = length (dict_objs h) \<and>
         (\<forall>d. d \<noteq> expr_simp_cb_ref self \<longrightarrow> dict_objs h' ! d = dict_objs h ! d) \<and>
         (passes \<noteq> expr_simp_cb_ref self \<longrightarrow>
            dict_objs h' ! passes = dict_objs h ! passes \<and>
            (valid_dict h passes \<longrightarrow>
               valid_dict h' passes \<and> table_of h' passes = table_of h passes))"
proof -
  let ?cb = "expr_simp_cb_ref self"
  have h': "h' = fold (merge_item ?cb) (dict_objs h ! passes) h"
    using assms by (simp add: enable_passes_store_def)
  obtain ls where ls: "list_objs h' = list_objs h @ ls"
    using fold_merge_item_lists h' by blast
  have len: "length (dict_objs h') = length (dict_objs h)"
    and others: "\<forall>d. d \<noteq> ?cb \<longrightarrow> dict_objs h' ! d = dict_objs h ! d"
    using fold_merge_item_dicts [of ?cb "dict_objs h ! passes" h] h' by simp_all
  have v: "valid_dict h' passes \<and> table_of h' passes = table_of h passes"
    if ne: "passes \<noteq> ?cb" and val: "valid_dict h passes"
  proof -
    have same: "dict_objs h' ! passes = dict_objs h ! passes"
      using others ne by simp
    have r: "\<forall>(k, r) \<in> set (dict_objs h ! passes). r < length (list_objs h)"
      using val by (simp add: valid_dict_def list_all_iff)
    have m: "map (\<lambda>(k, r). (k, list_objs h' ! r)) (dict_objs h ! passes)
        = map (\<lambda>(k, r). (k, list_objs h ! r)) (dict_objs h ! passes)"
      by (rule map_cong [OF refl]) (use r in \<open>auto simp: ls nth_append\<close>)
    have "table_of h' passes = table_of h passes"
      by (simp only: table_of_def same m)
    moreover have "valid_dict h' passes"
      using val r by (auto simp: valid_dict_def same len ls list_all_iff)
    ultimately show ?thesis by simp
  qed
  have "take (length (list_objs h)) (list_objs h') = list_objs h"
    by (simp add: ls)
  then show ?thesis using len others v by blast
qed

theorem enable_passes_keeps_argument_witness:
  "(0::nat) \<noteq> expr_simp_cb_ref engine_ex \<and> valid_dict store_ex 0 \<and>
   enable_passes_store 0 engine_ex store_ex
     = (engine_ex\<lparr>simplified_exprs_obj := {}\<rparr>,
        \<lparr>list_objs = [[''simp_flags'', ''simp_ext''], [''simp_flags''],
                      [''simp_flags'', ''simp_flags'', ''simp_ext''],
                      [''simp_flags'', ''simp_ext'']],
         dict_objs = [[(ExprOp, 0)], [(ExprOp, 3)]]\<rparr>) \<and>
   take (length (list_objs store_ex)) (list_objs (snd (enable_passes_store 0 engine_ex store_ex)))
     = list_objs store_ex \<and>
   dict_objs (snd (enable_passes_store 0 engine_ex store_ex)) ! 0 = dict_objs store_ex ! 0 \<and>
   table_of (snd (enable_passes_store 0 engine_ex store_ex)) 0 = table_of store_ex 0 \<and>
   table_of store_ex 0 = PASS_HIGH_TO_EXPLICIT"
proof -
  have n: "(0::nat) \<noteq> expr_simp_cb_ref engine_ex"
    by (simp add: engine_ex_def)
  have v: "valid_dict store_ex 0"
    by (simp add: valid_dict_def store_ex_def)
  have run: "enable_passes_store 0 engine_ex store_ex
     = (engine_ex\<lparr>simplified_exprs_obj := {}\<rparr>,
        \<lparr>list_objs = [[''simp_flags'', ''simp_ext''], [''simp_flags''],
                      [''simp_flags'', ''simp_flags'', ''simp_ext''],
                      [''simp_flags'', ''simp_ext'']],
         dict_objs = [[(ExprOp, 0)], [(ExprOp, 3)]]\<rparr>)"
    by (simp add: enable_passes_store_def merge_item_def new_list_def store_ex_def engine_ex_def
          fast_unify_def Let_def)
  have t: "table_of store_ex 0 = PASS_HIGH_TO_EXPLICIT"
    by (simp add: table_of_def store_ex_def PASS_HIGH_TO_EXPLICIT_def)
  note k = enable_passes_keeps_argument [OF prod.collapse [symmetric],
      where passes = 0 and self = engine_ex and h = store_ex]
  have l: "take (length (list_objs store_ex))
      (list_objs (snd (enable_passes_store 0 engine_ex store_ex))) = list_objs store_ex"
    using k by blast
  have d: "dict_objs (snd (enable_passes_store 0 engine_ex store_ex)) ! 0 = dict_objs store_ex ! 0"
    using k n by blast
  have res: "table_of (snd (enable_passes_store 0 engine_ex store_ex)) 0 = table_of store_ex 0"
    using k n v by blast
  from n v run l d res t show ?thesis by blast
qed

end
